theory Spec2Isabelle
  imports Main "HOL-Library.Word"
begin

unbundle bit_operations_syntax

section \<open>The SDN-WISE agent: data model\<close>

text \<open>
  The agent of \<^verbatim>\<open>sdn-wise-agent.c\<close> keeps three globals: the flow table (an array of
  \<^verbatim>\<open>MAX_FLOW_RULES\<close> rules), the 8-bit rule counter and the statistics block. They are
  the fields of one state record that every operation takes and returns. The C integer
  types are words of the same width, so \<open>+\<close> wraps as it does in C.
\<close>

type_synonym u8 = "8 word"
type_synonym u16 = "16 word"
type_synonym u32 = "32 word"

abbreviation (input) WISE_TYPE_DATA :: u8 where "WISE_TYPE_DATA \<equiv> 0x01"
abbreviation (input) WISE_TYPE_REPORT :: u8 where "WISE_TYPE_REPORT \<equiv> 0x03"
abbreviation (input) WISE_TYPE_CONFIG :: u8 where "WISE_TYPE_CONFIG \<equiv> 0x10"
abbreviation (input) WISE_TYPE_FLOW_RULE :: u8 where "WISE_TYPE_FLOW_RULE \<equiv> 0x12"

abbreviation (input) MAX_FLOW_RULES :: nat where "MAX_FLOW_RULES \<equiv> 10"

record flow_rule_t =
  active :: u8
  src_addr :: u16
  dst_addr :: u16
  action :: u8
  next_hop :: u16
  packet_count :: u32

record stats_t =
  packets_sent :: u32
  packets_received :: u32
  packets_forwarded :: u32
  packets_dropped :: u32

record agent_state =
  flow_table :: "flow_rule_t list"
  flow_count :: u8
  stats :: stats_t

text \<open>
  The function returns nothing in C; what it decides is visible only in the lines it
  logs (the log level of the module is INFO, so both \<^verbatim>\<open>LOG_INFO\<close> and
  \<^verbatim>\<open>LOG_WARN\<close> print). Each log line of the source is one constructor, carrying the
  values the format string prints.
\<close>

datatype log_event =
    FlowTableFull
  | FlowAdded u16 u16 u8 u16
  | FlowTableCleared
  | PacketTooShort nat
  | RX u8 u16 u16 u8
  | ForwardingTo u16
  | NoFlowRule
  | ConfigurationPacket
  | UnknownPacketType u8
  | ReportSent u32 u32

section \<open>Flow table management\<close>

text \<open>
  \<^verbatim>\<open>flow_table_add\<close> returns \<open>-1\<close> and touches nothing when the counter has reached
  the capacity; otherwise it fills the slot at index \<open>flow_count\<close> and increments the
  counter. The result is the C return code, the lines logged and the new state.
\<close>

definition flow_table_add ::
  "u16 \<Rightarrow> u16 \<Rightarrow> u8 \<Rightarrow> u16 \<Rightarrow> agent_state \<Rightarrow> int \<times> log_event list \<times> agent_state" where
  "flow_table_add src dst act nh s =
     (if unat (flow_count s) \<ge> MAX_FLOW_RULES then (-1, [FlowTableFull], s)
      else
        (0, [FlowAdded src dst act nh],
         s\<lparr>flow_table := (flow_table s)[unat (flow_count s) :=
                \<lparr>active = 1, src_addr = src, dst_addr = dst, action = act,
                 next_hop = nh, packet_count = 0\<rparr>],
           flow_count := flow_count s + 1\<rparr>))"

text \<open>
  The scan of \<^verbatim>\<open>flow_table_lookup\<close>: the loop variable is a \<^verbatim>\<open>uint8_t\<close> running
  from 0 while it is below \<^verbatim>\<open>flow_count\<close>. The pointer the C function returns is
  the index of the slot; \<^verbatim>\<open>NULL\<close> is \<open>None\<close>.
\<close>

function flow_table_lookup_loop ::
  "flow_rule_t list \<Rightarrow> u8 \<Rightarrow> u16 \<Rightarrow> u16 \<Rightarrow> u8 \<Rightarrow> nat option" where
  "flow_table_lookup_loop tbl cnt src dst i =
     (if i < cnt then
        (if active (tbl ! unat i) \<noteq> 0 \<and> src_addr (tbl ! unat i) = src \<and>
            dst_addr (tbl ! unat i) = dst
         then Some (unat i)
         else flow_table_lookup_loop tbl cnt src dst (i + 1))
      else None)"
  by pat_completeness auto

termination flow_table_lookup_loop
proof (relation "measure (\<lambda>(tbl, cnt, src, dst, i). unat cnt - unat i)")
  show "wf (measure (\<lambda>(tbl :: flow_rule_t list, cnt :: u8, src :: u16, dst :: u16, i :: u8).
    unat cnt - unat i))"
    by simp
next
  fix tbl :: "flow_rule_t list" and cnt i :: u8 and src dst :: u16
  assume below: "i < cnt"
  then have "unat (i + 1) = Suc (unat i)" by unat_arith
  with below show "((tbl, cnt, src, dst, i + 1), (tbl, cnt, src, dst, i))
      \<in> measure (\<lambda>(tbl, cnt, src, dst, i). unat cnt - unat i)"
    by (simp add: word_less_nat_alt)
qed

declare flow_table_lookup_loop.simps [simp del]

definition flow_table_lookup :: "u16 \<Rightarrow> u16 \<Rightarrow> agent_state \<Rightarrow> nat option" where
  "flow_table_lookup src dst s = flow_table_lookup_loop (flow_table s) (flow_count s) src dst 0"

text \<open>\<^verbatim>\<open>memset\<close> writes zero bytes over the whole array: every field of every slot is 0.\<close>

definition zero_rule :: flow_rule_t where
  "zero_rule = \<lparr>active = 0, src_addr = 0, dst_addr = 0, action = 0, next_hop = 0,
                packet_count = 0\<rparr>"

definition flow_table_clear :: "agent_state \<Rightarrow> log_event list \<times> agent_state" where
  "flow_table_clear s =
     ([FlowTableCleared],
      s\<lparr>flow_table := replicate MAX_FLOW_RULES zero_rule, flow_count := 0\<rparr>)"

section \<open>Packet processing\<close>

text \<open>
  Two bytes read big-endian, as \<^verbatim>\<open>(data[2] << 8) | data[3]\<close> stored in a
  \<^verbatim>\<open>uint16_t\<close>.
\<close>

definition be16 :: "u8 \<Rightarrow> u8 \<Rightarrow> u16" where
  "be16 hi lo = push_bit 8 (ucast hi) OR ucast lo"

text \<open>
  The buffer and its length arrive together from the UDP callback, so the pair
  \<^verbatim>\<open>(data, len)\<close> is one byte list and \<^verbatim>\<open>len\<close> is its length.
\<close>

definition process_wise_packet :: "u8 list \<Rightarrow> agent_state \<Rightarrow> log_event list \<times> agent_state" where
  "process_wise_packet data s =
     (if length data < 7 then ([PacketTooShort (length data)], s)
      else
        let packet_type = data ! 1;
            dst = be16 (data ! 2) (data ! 3);
            src = be16 (data ! 4) (data ! 5);
            ttl = data ! 6;
            rx = RX packet_type src dst ttl;
            s1 = s\<lparr>stats := (stats s)\<lparr>packets_received := packets_received (stats s) + 1\<rparr>\<rparr>
        in
          if packet_type = WISE_TYPE_FLOW_RULE then
            (if length data \<ge> 14 then
               let act = data ! 7;
                   nh = be16 (data ! 8) (data ! 9);
                   (rc, lg, s2) = flow_table_add src dst act nh s1
               in (rx # lg, s2)
             else ([rx], s1))
          else if packet_type = WISE_TYPE_DATA then
            (case flow_table_lookup src dst s1 of
               Some i \<Rightarrow>
                 let rule = flow_table s1 ! i;
                     s2 = s1\<lparr>flow_table := (flow_table s1)[i :=
                                 rule\<lparr>packet_count := packet_count rule + 1\<rparr>]\<rparr>;
                     s3 = s2\<lparr>stats := (stats s2)\<lparr>packets_forwarded :=
                                 packets_forwarded (stats s2) + 1\<rparr>\<rparr>
                 in ([rx, ForwardingTo (next_hop (flow_table s3 ! i))], s3)
             | None \<Rightarrow>
                 ([rx, NoFlowRule],
                  s1\<lparr>stats := (stats s1)\<lparr>packets_dropped := packets_dropped (stats s1) + 1\<rparr>\<rparr>))
          else if packet_type = WISE_TYPE_CONFIG then ([rx, ConfigurationPacket], s1)
          else ([rx, UnknownPacketType packet_type], s1))"

section \<open>Sending the report\<close>

text \<open>
  The collaborators are parameters: \<open>is_root\<close> is what
  \<^verbatim>\<open>NETSTACK_ROUTING.node_is_root()\<close> answers, \<open>linkaddr\<close> holds the bytes of
  \<^verbatim>\<open>linkaddr_node_addr.u8\<close>, and \<open>stack\<close> gives the byte found at each offset of the
  local array \<^verbatim>\<open>buffer[32]\<close>, which the C code declares without initialising it.
  The result is the datagram handed to \<^verbatim>\<open>simple_udp_sendto\<close> (the first 20 bytes of
  the buffer), if any.
\<close>

definition send_report_to_controller ::
  "bool \<Rightarrow> u8 list \<Rightarrow> (nat \<Rightarrow> u8) \<Rightarrow> agent_state \<Rightarrow> u8 list option \<times> log_event list \<times> agent_state" where
  "send_report_to_controller is_root linkaddr stack s =
     (if is_root then (None, [], s)
      else
        let buffer0 = map stack [0..<32];
            node_id = be16 (linkaddr ! 6) (linkaddr ! 7);
            sent = packets_sent (stats s);
            buffer = buffer0
              [0 := 20,
               1 := WISE_TYPE_REPORT,
               2 := ucast (drop_bit 8 node_id AND 0xFF),
               3 := ucast (node_id AND 0xFF),
               7 := ucast (drop_bit 24 sent AND 0xFF),
               8 := ucast (drop_bit 16 sent AND 0xFF),
               9 := ucast (drop_bit 8 sent AND 0xFF),
               10 := ucast (sent AND 0xFF)]
        in (Some (take 20 buffer),
            [ReportSent sent (packets_received (stats s))],
            s\<lparr>stats := (stats s)\<lparr>packets_sent := sent + 1\<rparr>\<rparr>))"

section \<open>Sequences of calls\<close>

text \<open>Calling \<^verbatim>\<open>flow_table_add\<close> once per argument tuple, in order, keeping the return codes.\<close>

fun flow_table_add_all ::
  "(u16 \<times> u16 \<times> u8 \<times> u16) list \<Rightarrow> agent_state \<Rightarrow> int list \<times> agent_state" where
  "flow_table_add_all [] s = ([], s)"
| "flow_table_add_all ((src, dst, act, nh) # rs) s =
     (case flow_table_add src dst act nh s of
        (rc, lg, s') \<Rightarrow> (case flow_table_add_all rs s' of (rcs, s'') \<Rightarrow> (rc # rcs, s'')))"

text \<open>The UDP callback running once per datagram received, in order; the logs are appended.\<close>

fun process_all :: "u8 list list \<Rightarrow> agent_state \<Rightarrow> log_event list \<times> agent_state" where
  "process_all [] s = ([], s)"
| "process_all (d # ds) s =
     (case process_wise_packet d s of
        (lg, s') \<Rightarrow> (case process_all ds s' of (lgs, s'') \<Rightarrow> (lg @ lgs, s'')))"

section \<open>Notions used to state the properties\<close>

text \<open>
  The globals as the C runtime leaves them before the process starts: objects with static
  storage are zero-initialised.
\<close>

definition initial_state :: agent_state where
  "initial_state =
     \<lparr>flow_table = replicate MAX_FLOW_RULES zero_rule, flow_count = 0,
      stats = \<lparr>packets_sent = 0, packets_received = 0, packets_forwarded = 0,
               packets_dropped = 0\<rparr>\<rparr>"

text \<open>The test of the lookup loop on one slot.\<close>

definition rule_matches :: "flow_rule_t \<Rightarrow> u16 \<Rightarrow> u16 \<Rightarrow> bool" where
  "rule_matches r src dst \<longleftrightarrow> active r \<noteq> 0 \<and> src_addr r = src \<and> dst_addr r = dst"

text \<open>
  The array has its \<^verbatim>\<open>MAX_FLOW_RULES\<close> slots and the counter does not exceed them:
  under this condition every index the code uses is inside the array.
\<close>

definition table_ok :: "agent_state \<Rightarrow> bool" where
  "table_ok s \<longleftrightarrow> length (flow_table s) = MAX_FLOW_RULES \<and> unat (flow_count s) \<le> MAX_FLOW_RULES"

text \<open>The number of slots marked active, and the slot that one call of the insertion writes.\<close>

definition active_rules :: "agent_state \<Rightarrow> nat" where
  "active_rules s = length (filter (\<lambda>r. active r \<noteq> 0) (flow_table s))"

definition new_rule :: "u16 \<times> u16 \<times> u8 \<times> u16 \<Rightarrow> flow_rule_t" where
  "new_rule a = (case a of (src, dst, act, nh) \<Rightarrow>
     \<lparr>active = 1, src_addr = src, dst_addr = dst, action = act, next_hop = nh, packet_count = 0\<rparr>)"

text \<open>Exactly the slots below the counter are active.\<close>

definition active_prefix :: "agent_state \<Rightarrow> bool" where
  "active_prefix s \<longleftrightarrow> table_ok s \<and>
     (\<forall>j<MAX_FLOW_RULES. active (flow_table s ! j) \<noteq> 0 \<longleftrightarrow> j < unat (flow_count s))"

text \<open>
  The state after \<^verbatim>\<open>stats.packets_received++\<close>, and the header fields as the code
  reads them from the buffer.
\<close>

definition received :: "agent_state \<Rightarrow> agent_state" where
  "received s = s\<lparr>stats := (stats s)\<lparr>packets_received := packets_received (stats s) + 1\<rparr>\<rparr>"

definition packet_src :: "u8 list \<Rightarrow> u16" where
  "packet_src d = be16 (d ! 4) (d ! 5)"

definition packet_dst :: "u8 list \<Rightarrow> u16" where
  "packet_dst d = be16 (d ! 2) (d ! 3)"

definition packet_rx :: "u8 list \<Rightarrow> log_event" where
  "packet_rx d = RX (d ! 1) (packet_src d) (packet_dst d) (d ! 6)"

text \<open>
  Two rules that differ at most in their packet counter; and the buffers that reach the
  lookup of the \<^verbatim>\<open>WISE_TYPE_DATA\<close> branch with a given key.
\<close>

definition same_policy :: "flow_rule_t \<Rightarrow> flow_rule_t \<Rightarrow> bool" where
  "same_policy r r' \<longleftrightarrow>
     active r' = active r \<and> src_addr r' = src_addr r \<and> dst_addr r' = dst_addr r \<and>
     action r' = action r \<and> next_hop r' = next_hop r"

definition is_data_for :: "u16 \<Rightarrow> u16 \<Rightarrow> u8 list \<Rightarrow> bool" where
  "is_data_for src dst d \<longleftrightarrow>
     7 \<le> length d \<and> d ! 1 = WISE_TYPE_DATA \<and> packet_src d = src \<and> packet_dst d = dst"

text \<open>Overwriting the action stored in one slot, and a table holding one rule whose action is DROP.\<close>

definition set_action :: "nat \<Rightarrow> u8 \<Rightarrow> agent_state \<Rightarrow> agent_state" where
  "set_action j a s = s\<lparr>flow_table := (flow_table s)[j := (flow_table s ! j)\<lparr>action := a\<rparr>]\<rparr>"

definition one_rule_state :: agent_state where
  "one_rule_state =
     \<lparr>flow_table =
        \<lparr>active = 1, src_addr = 3, dst_addr = 4, action = 0, next_hop = 5, packet_count = 0\<rparr>
        # replicate 9 zero_rule,
      flow_count = 1,
      stats = \<lparr>packets_sent = 0, packets_received = 0, packets_forwarded = 0,
               packets_dropped = 0\<rparr>\<rparr>"

text \<open>Four bytes read as a 32-bit big-endian integer.\<close>

definition be32 :: "u8 \<Rightarrow> u8 \<Rightarrow> u8 \<Rightarrow> u8 \<Rightarrow> u32" where
  "be32 b3 b2 b1 b0 =
     push_bit 24 (ucast b3) OR push_bit 16 (ucast b2) OR push_bit 8 (ucast b1) OR ucast b0"

section \<open>The lookup loop\<close>

lemma u8_succ_below: "i < cnt \<Longrightarrow> unat (i + 1) = Suc (unat i)" for i cnt :: u8
  by unat_arith

lemma lookup_loop_step:
  "i < cnt \<Longrightarrow> flow_table_lookup_loop tbl cnt src dst i =
     (if rule_matches (tbl ! unat i) src dst then Some (unat i)
      else flow_table_lookup_loop tbl cnt src dst (i + 1))"
  by (subst flow_table_lookup_loop.simps) (simp add: rule_matches_def)

lemma lookup_loop_stop:
  "\<not> i < cnt \<Longrightarrow> flow_table_lookup_loop tbl cnt src dst i = None"
  by (subst flow_table_lookup_loop.simps) simp

lemma lookup_loop_Some:
  "flow_table_lookup_loop tbl cnt src dst i = Some n \<Longrightarrow>
     unat i \<le> n \<and> n < unat cnt \<and> rule_matches (tbl ! n) src dst \<and>
     (\<forall>j. unat i \<le> j \<and> j < n \<longrightarrow> \<not> rule_matches (tbl ! j) src dst)"
proof (induction tbl cnt src dst i rule: flow_table_lookup_loop.induct)
  case (1 tbl cnt src dst i)
  show ?case
  proof (cases "i < cnt")
    case False
    with "1.prems" show ?thesis by (simp add: lookup_loop_stop)
  next
    case lt: True
    show ?thesis
    proof (cases "rule_matches (tbl ! unat i) src dst")
      case True
      with lt "1.prems" have "n = unat i"
        by (simp add: lookup_loop_step)
      with lt True show ?thesis by (auto simp add: word_less_nat_alt)
    next
      case False
      with lt "1.prems" have rec: "flow_table_lookup_loop tbl cnt src dst (i + 1) = Some n"
        by (simp add: lookup_loop_step)
      from False have "\<not> (active (tbl ! unat i) \<noteq> 0 \<and> src_addr (tbl ! unat i) = src \<and>
            dst_addr (tbl ! unat i) = dst)" by (simp add: rule_matches_def)
      from "1.IH" [OF lt this rec] have ih:
        "unat (i + 1) \<le> n \<and> n < unat cnt \<and> rule_matches (tbl ! n) src dst \<and>
         (\<forall>j. unat (i + 1) \<le> j \<and> j < n \<longrightarrow> \<not> rule_matches (tbl ! j) src dst)" .
      have suc: "unat (i + 1) = Suc (unat i)" using lt by (rule u8_succ_below)
      have "\<not> rule_matches (tbl ! j) src dst" if "unat i \<le> j" "j < n" for j
      proof (cases "j = unat i")
        case True with False show ?thesis by simp
      next
        case False with that ih suc show ?thesis by simp
      qed
      with ih suc show ?thesis by simp
    qed
  qed
qed

lemma lookup_loop_None:
  "flow_table_lookup_loop tbl cnt src dst i = None \<Longrightarrow>
     unat i \<le> j \<Longrightarrow> j < unat cnt \<Longrightarrow> \<not> rule_matches (tbl ! j) src dst"
proof (induction tbl cnt src dst i rule: flow_table_lookup_loop.induct)
  case (1 tbl cnt src dst i)
  from "1.prems" have lt: "i < cnt" by (simp add: word_less_nat_alt)
  from lt "1.prems"(1) have nm': "\<not> rule_matches (tbl ! unat i) src dst"
    by (auto simp add: lookup_loop_step split: if_splits)
  then have nm: "\<not> (active (tbl ! unat i) \<noteq> 0 \<and> src_addr (tbl ! unat i) = src \<and>
            dst_addr (tbl ! unat i) = dst)" by (simp add: rule_matches_def)
  from lt nm' "1.prems"(1) have rec: "flow_table_lookup_loop tbl cnt src dst (i + 1) = None"
    by (simp add: lookup_loop_step)
  have suc: "unat (i + 1) = Suc (unat i)" using lt by (rule u8_succ_below)
  show ?case
  proof (cases "j = unat i")
    case True with nm' show ?thesis by simp
  next
    case False
    with "1.prems" suc have "unat (i + 1) \<le> j" by simp
    from "1.IH" [OF lt nm rec this "1.prems"(3)] show ?thesis .
  qed
qed

lemma lookup_loop_first:
  assumes "unat i \<le> n" "n < unat cnt" "rule_matches (tbl ! n) src dst"
    and "\<forall>j. unat i \<le> j \<and> j < n \<longrightarrow> \<not> rule_matches (tbl ! j) src dst"
  shows "flow_table_lookup_loop tbl cnt src dst i = Some n"
proof (cases "flow_table_lookup_loop tbl cnt src dst i")
  case None
  from lookup_loop_None [OF None assms(1,2)] assms(3) show ?thesis by simp
next
  case (Some m)
  from lookup_loop_Some [OF Some] have m: "unat i \<le> m" "m < unat cnt" "rule_matches (tbl ! m) src dst"
    "\<forall>j. unat i \<le> j \<and> j < m \<longrightarrow> \<not> rule_matches (tbl ! j) src dst" by auto
  have "\<not> m < n" using assms(4) m(1,3) by blast
  moreover have "\<not> n < m" using m(4) assms(1,3) by blast
  ultimately have "m = n" by simp
  with Some show ?thesis by simp
qed


lemma lookup_Some_iff:
  "flow_table_lookup src dst s = Some n \<longleftrightarrow>
     n < unat (flow_count s) \<and> rule_matches (flow_table s ! n) src dst \<and>
     (\<forall>j<n. \<not> rule_matches (flow_table s ! j) src dst)"
  unfolding flow_table_lookup_def
  using lookup_loop_Some [of "flow_table s" "flow_count s" src dst 0 n]
        lookup_loop_first [of 0 n "flow_count s" "flow_table s" src dst]
  by auto

lemma lookup_None_iff:
  "flow_table_lookup src dst s = None \<longleftrightarrow>
     (\<forall>j<unat (flow_count s). \<not> rule_matches (flow_table s ! j) src dst)"
proof
  assume "flow_table_lookup src dst s = None"
  then show "\<forall>j<unat (flow_count s). \<not> rule_matches (flow_table s ! j) src dst"
    unfolding flow_table_lookup_def
    using lookup_loop_None [of "flow_table s" "flow_count s" src dst 0] by simp
next
  assume none: "\<forall>j<unat (flow_count s). \<not> rule_matches (flow_table s ! j) src dst"
  show "flow_table_lookup src dst s = None"
  proof (cases "flow_table_lookup src dst s")
    case None then show ?thesis .
  next
    case (Some m)
    then have "m < unat (flow_count s) \<and> rule_matches (flow_table s ! m) src dst"
      by (simp add: lookup_Some_iff)
    with none show ?thesis by blast
  qed
qed

lemma u8_count_succ: "unat c < 10 \<Longrightarrow> unat (c + 1) = Suc (unat c)" for c :: u8
  by (rule u8_succ_below [of c 10]) (simp add: word_less_nat_alt)

section \<open>Insertion\<close>

lemma flow_table_add_full:
  "10 \<le> unat (flow_count s) \<Longrightarrow> flow_table_add src dst act nh s = (-1, [FlowTableFull], s)"
  by (simp add: flow_table_add_def)

lemma flow_table_add_room:
  "unat (flow_count s) < 10 \<Longrightarrow>
   flow_table_add src dst act nh s =
     (0, [FlowAdded src dst act nh],
      s\<lparr>flow_table := (flow_table s)[unat (flow_count s) :=
             \<lparr>active = 1, src_addr = src, dst_addr = dst, action = act,
              next_hop = nh, packet_count = 0\<rparr>],
        flow_count := flow_count s + 1\<rparr>)"
  by (simp add: flow_table_add_def)

lemma table_ok_add:
  "table_ok s \<Longrightarrow> table_ok (snd (snd (flow_table_add src dst act nh s)))"
  by (cases "unat (flow_count s) < 10")
     (simp_all add: flow_table_add_full flow_table_add_room table_ok_def u8_count_succ)

lemma table_ok_clear: "table_ok (snd (flow_table_clear s))"
  by (simp add: flow_table_clear_def table_ok_def)


lemma count_prefix:
  assumes "k \<le> length xs" and "\<forall>j<length xs. P (xs ! j) \<longleftrightarrow> j < k"
  shows "length (filter P xs) = k"
proof -
  have a: "filter P (take k xs) = take k xs"
    using assms by (auto simp: filter_id_conv in_set_conv_nth)
  have b: "filter P (drop k xs) = []"
    using assms by (auto simp: filter_empty_conv in_set_conv_nth)
  have "filter P xs = filter P (take k xs @ drop k xs)" by simp
  also have "\<dots> = take k xs" unfolding filter_append a b by simp
  finally show ?thesis using assms(1) by simp
qed

lemma active_prefix_count: "active_prefix s \<Longrightarrow> active_rules s = unat (flow_count s)"
  unfolding active_rules_def active_prefix_def table_ok_def
  by (rule count_prefix) auto

lemma active_prefix_clear: "active_prefix (snd (flow_table_clear s))"
  by (simp add: active_prefix_def table_ok_def flow_table_clear_def zero_rule_def)

lemma active_prefix_add:
  assumes "active_prefix s" "unat (flow_count s) < 10"
  shows "active_prefix (snd (snd (flow_table_add src dst act nh s)))"
  using assms
  by (auto simp: active_prefix_def table_ok_def flow_table_add_room u8_count_succ
        nth_list_update less_Suc_eq)

lemma add_all_room:
  "active_prefix s \<Longrightarrow> unat (flow_count s) + length rs \<le> 10 \<Longrightarrow>
   fst (flow_table_add_all rs s) = replicate (length rs) 0 \<and>
   active_prefix (snd (flow_table_add_all rs s)) \<and>
   unat (flow_count (snd (flow_table_add_all rs s))) = unat (flow_count s) + length rs \<and>
   stats (snd (flow_table_add_all rs s)) = stats s \<and>
   (\<forall>j<unat (flow_count s).
      flow_table (snd (flow_table_add_all rs s)) ! j = flow_table s ! j) \<and>
   (\<forall>k<length rs.
      flow_table (snd (flow_table_add_all rs s)) ! (unat (flow_count s) + k) = new_rule (rs ! k))"
proof (induction rs arbitrary: s)
  case Nil
  then show ?case by simp
next
  case (Cons r rs)
  obtain src dst act nh where r: "r = (src, dst, act, nh)" by (cases r)
  let ?s1 = "s\<lparr>flow_table := (flow_table s)[unat (flow_count s) := new_rule r],
               flow_count := flow_count s + 1\<rparr>"
  from Cons.prems have room: "unat (flow_count s) < 10" by simp
  then have add: "flow_table_add src dst act nh s = (0, [FlowAdded src dst act nh], ?s1)"
    by (simp add: flow_table_add_room new_rule_def r)
  have ok1: "active_prefix ?s1"
    using active_prefix_add [OF Cons.prems(1) room, of src dst act nh] add by simp
  have cnt1: "unat (flow_count ?s1) = Suc (unat (flow_count s))"
    using room by (simp add: u8_count_succ)
  have len: "length (flow_table s) = 10"
    using Cons.prems(1) by (simp add: active_prefix_def table_ok_def)
  from Cons.prems cnt1 have "unat (flow_count ?s1) + length rs \<le> 10" by simp
  note ih = Cons.IH [OF ok1 this]
  have unfold: "flow_table_add_all (r # rs) s =
      (0 # fst (flow_table_add_all rs ?s1), snd (flow_table_add_all rs ?s1))"
    by (simp add: r add split: prod.splits)
  have old: "flow_table (snd (flow_table_add_all rs ?s1)) ! j = flow_table s ! j"
    if "j < unat (flow_count s)" for j
    using ih that cnt1 by (simp add: less_Suc_eq)
  have new: "flow_table (snd (flow_table_add_all rs ?s1)) ! (unat (flow_count s) + k) =
      new_rule ((r # rs) ! k)" if "k < length (r # rs)" for k
  proof (cases k)
    case 0
    have "flow_table (snd (flow_table_add_all rs ?s1)) ! unat (flow_count s) =
        flow_table ?s1 ! unat (flow_count s)"
      using ih cnt1 by simp
    with 0 room len show ?thesis by simp
  next
    case (Suc k')
    with that have "k' < length rs" by simp
    with ih cnt1 Suc show ?thesis by simp
  qed
  show ?case
    unfolding unfold using ih cnt1 old new by simp
qed


section \<open>The branches of packet processing\<close>

lemma lookup_stats [simp]:
  "flow_table_lookup src dst (s\<lparr>stats := x\<rparr>) = flow_table_lookup src dst s"
  by (simp add: flow_table_lookup_def)

lemma lookup_received [simp]:
  "flow_table_lookup src dst (received s) = flow_table_lookup src dst s"
  by (simp add: received_def)

lemma pwp_short:
  "length d < 7 \<Longrightarrow> process_wise_packet d s = ([PacketTooShort (length d)], s)"
  by (simp add: process_wise_packet_def)

lemma pwp_flow_rule:
  "14 \<le> length d \<Longrightarrow> d ! 1 = 0x12 \<Longrightarrow>
   process_wise_packet d s =
     (packet_rx d #
        fst (snd (flow_table_add (packet_src d) (packet_dst d) (d ! 7) (be16 (d ! 8) (d ! 9))
          (received s))),
      snd (snd (flow_table_add (packet_src d) (packet_dst d) (d ! 7) (be16 (d ! 8) (d ! 9))
          (received s))))"
  by (simp add: process_wise_packet_def Let_def packet_rx_def packet_src_def packet_dst_def
      received_def split: prod.splits)

lemma pwp_flow_rule_short:
  "7 \<le> length d \<Longrightarrow> length d < 14 \<Longrightarrow> d ! 1 = 0x12 \<Longrightarrow>
   process_wise_packet d s = ([packet_rx d], received s)"
  by (simp add: process_wise_packet_def Let_def packet_rx_def packet_src_def packet_dst_def
      received_def)

lemma pwp_data_hit:
  "7 \<le> length d \<Longrightarrow> d ! 1 = 1 \<Longrightarrow>
   flow_table_lookup (packet_src d) (packet_dst d) s = Some i \<Longrightarrow>
   process_wise_packet d s =
     ([packet_rx d, ForwardingTo (next_hop (flow_table s ! i))],
      s\<lparr>flow_table := (flow_table s)[i := (flow_table s ! i)
             \<lparr>packet_count := packet_count (flow_table s ! i) + 1\<rparr>],
        stats := (stats s)\<lparr>packets_received := packets_received (stats s) + 1,
                           packets_forwarded := packets_forwarded (stats s) + 1\<rparr>\<rparr>)"
  by (cases "i < length (flow_table s)")
     (simp_all add: process_wise_packet_def Let_def packet_rx_def packet_src_def packet_dst_def
        list_update_beyond)

lemma pwp_data_miss:
  "7 \<le> length d \<Longrightarrow> d ! 1 = 1 \<Longrightarrow>
   flow_table_lookup (packet_src d) (packet_dst d) s = None \<Longrightarrow>
   process_wise_packet d s =
     ([packet_rx d, NoFlowRule],
      s\<lparr>stats := (stats s)\<lparr>packets_received := packets_received (stats s) + 1,
                           packets_dropped := packets_dropped (stats s) + 1\<rparr>\<rparr>)"
  by (simp add: process_wise_packet_def Let_def packet_rx_def packet_src_def packet_dst_def)

lemma pwp_config:
  "7 \<le> length d \<Longrightarrow> d ! 1 = 0x10 \<Longrightarrow>
   process_wise_packet d s = ([packet_rx d, ConfigurationPacket], received s)"
  by (simp add: process_wise_packet_def Let_def packet_rx_def packet_src_def packet_dst_def
      received_def)

lemma pwp_unknown:
  "7 \<le> length d \<Longrightarrow> d ! 1 \<noteq> 0x12 \<Longrightarrow> d ! 1 \<noteq> 1 \<Longrightarrow> d ! 1 \<noteq> 0x10 \<Longrightarrow>
   process_wise_packet d s = ([packet_rx d, UnknownPacketType (d ! 1)], received s)"
  by (simp add: process_wise_packet_def Let_def packet_rx_def packet_src_def packet_dst_def
      received_def)


lemma pwp_state:
  "snd (process_wise_packet d s) =
     (if length d < 7 then s
      else if d ! 1 = 0x12 \<and> 14 \<le> length d \<and> unat (flow_count s) < 10 then
        (received s)\<lparr>flow_table := (flow_table s)[unat (flow_count s) :=
            new_rule (packet_src d, packet_dst d, d ! 7, be16 (d ! 8) (d ! 9))],
          flow_count := flow_count s + 1\<rparr>
      else if d ! 1 = 1 then
        (case flow_table_lookup (packet_src d) (packet_dst d) s of
           Some i \<Rightarrow>
             s\<lparr>flow_table := (flow_table s)[i := (flow_table s ! i)
                    \<lparr>packet_count := packet_count (flow_table s ! i) + 1\<rparr>],
               stats := (stats s)\<lparr>packets_received := packets_received (stats s) + 1,
                           packets_forwarded := packets_forwarded (stats s) + 1\<rparr>\<rparr>
         | None \<Rightarrow>
             s\<lparr>stats := (stats s)\<lparr>packets_received := packets_received (stats s) + 1,
                           packets_dropped := packets_dropped (stats s) + 1\<rparr>\<rparr>)
      else received s)"
proof (cases "length d < 7")
  case True
  then show ?thesis by (simp add: pwp_short)
next
  case long: False
  then have len: "7 \<le> length d" by simp
  consider (rule) "d ! 1 = 0x12" | (data) "d ! 1 = 1" | (config) "d ! 1 = 0x10"
    | (other) "d ! 1 \<noteq> 0x12" "d ! 1 \<noteq> 1" "d ! 1 \<noteq> 0x10" by blast
  then show ?thesis
  proof cases
    case rule
    show ?thesis
    proof (cases "14 \<le> length d")
      case True
      show ?thesis
      proof (cases "unat (flow_count s) < 10")
        case room: True
        then have "unat (flow_count (received s)) < 10" by (simp add: received_def)
        from flow_table_add_room [OF this] room True rule long show ?thesis
          by (simp add: pwp_flow_rule received_def new_rule_def)
      next
        case False
        then have "10 \<le> unat (flow_count (received s))" by (simp add: received_def)
        from flow_table_add_full [OF this] False True rule long show ?thesis
          by (simp add: pwp_flow_rule)
      qed
    next
      case False
      with rule len show ?thesis by (simp add: pwp_flow_rule_short)
    qed
  next
    case data
    with len show ?thesis
      by (cases "flow_table_lookup (packet_src d) (packet_dst d) s")
         (simp_all add: pwp_data_hit pwp_data_miss)
  next
    case config
    with len show ?thesis by (simp add: pwp_config)
  next
    case other
    with len show ?thesis by (simp add: pwp_unknown)
  qed
qed

lemma nth_bump:
  "(xs[i := (xs ! i)\<lparr>packet_count := c\<rparr>]) ! j =
     (if j = i \<and> i < length xs then (xs ! i)\<lparr>packet_count := c\<rparr> else xs ! j)"
  by (cases "i < length xs") (simp_all add: nth_list_update list_update_beyond)

lemma pwp_frame:
  assumes "table_ok s"
  shows "table_ok (snd (process_wise_packet d s))"
    and "unat (flow_count s) \<le> unat (flow_count (snd (process_wise_packet d s)))"
    and "j < unat (flow_count s) \<Longrightarrow>
           same_policy (flow_table s ! j) (flow_table (snd (process_wise_packet d s)) ! j)"
    and "j < unat (flow_count s) \<Longrightarrow>
           packet_count (flow_table (snd (process_wise_packet d s)) ! j) =
           packet_count (flow_table s ! j) +
             (if 7 \<le> length d \<and> d ! 1 = 1 \<and>
                 flow_table_lookup (packet_src d) (packet_dst d) s = Some j then 1 else 0)"
  using assms
  by (auto simp: pwp_state table_ok_def received_def u8_count_succ same_policy_def
        nth_bump split: option.splits)


section \<open>What a run of packets leaves in place\<close>

lemma rule_matches_same_policy:
  "same_policy r r' \<Longrightarrow> rule_matches r' src dst = rule_matches r src dst"
  by (simp add: same_policy_def rule_matches_def)

lemma rule_matches_key:
  "rule_matches r src dst \<Longrightarrow> rule_matches r src' dst' \<Longrightarrow> src' = src \<and> dst' = dst"
  by (simp add: rule_matches_def)

lemma pwp_lookup_stable:
  assumes ok: "table_ok s" and hit: "flow_table_lookup src dst s = Some n"
  shows "flow_table_lookup src dst (snd (process_wise_packet d s)) = Some n"
proof -
  let ?s' = "snd (process_wise_packet d s)"
  from hit have n: "n < unat (flow_count s)" "rule_matches (flow_table s ! n) src dst"
    "\<forall>j<n. \<not> rule_matches (flow_table s ! j) src dst"
    by (simp_all add: lookup_Some_iff)
  have "n < unat (flow_count ?s')" using n(1) pwp_frame(2) [OF ok, of d] by simp
  moreover have "rule_matches (flow_table ?s' ! n) src dst"
    using n(1,2) pwp_frame(3) [OF ok, of n d] by (simp add: rule_matches_same_policy)
  moreover have "\<not> rule_matches (flow_table ?s' ! j) src dst" if "j < n" for j
  proof -
    from that n(1) have "j < unat (flow_count s)" by simp
    from pwp_frame(3) [OF ok this, of d] n(3) that show ?thesis
      by (simp add: rule_matches_same_policy)
  qed
  ultimately show ?thesis by (simp add: lookup_Some_iff)
qed

lemma pwp_count_first:
  assumes ok: "table_ok s" and hit: "flow_table_lookup src dst s = Some n"
  shows "packet_count (flow_table (snd (process_wise_packet d s)) ! n) =
         packet_count (flow_table s ! n) + (if is_data_for src dst d then 1 else 0)"
proof -
  from hit have n: "n < unat (flow_count s)" "rule_matches (flow_table s ! n) src dst"
    by (simp_all add: lookup_Some_iff)
  have "flow_table_lookup (packet_src d) (packet_dst d) s = Some n \<longleftrightarrow>
        packet_src d = src \<and> packet_dst d = dst"
  proof
    assume "flow_table_lookup (packet_src d) (packet_dst d) s = Some n"
    then have "rule_matches (flow_table s ! n) (packet_src d) (packet_dst d)"
      by (simp add: lookup_Some_iff)
    from rule_matches_key [OF this n(2)] show "packet_src d = src \<and> packet_dst d = dst"
      by simp
  next
    assume "packet_src d = src \<and> packet_dst d = dst"
    with hit show "flow_table_lookup (packet_src d) (packet_dst d) s = Some n" by simp
  qed
  then have "(7 \<le> length d \<and> d ! 1 = 1 \<and>
      flow_table_lookup (packet_src d) (packet_dst d) s = Some n) \<longleftrightarrow> is_data_for src dst d"
    by (auto simp: is_data_for_def)
  with pwp_frame(4) [OF ok n(1), of d] show ?thesis by simp
qed

lemma pwp_shadowed:
  assumes ok: "table_ok s" and m: "m < unat (flow_count s)" and j: "j < m"
    and sh: "rule_matches (flow_table s ! j) (src_addr (flow_table s ! m)) (dst_addr (flow_table s ! m))"
  shows "packet_count (flow_table (snd (process_wise_packet d s)) ! m) =
         packet_count (flow_table s ! m)"
proof -
  have "flow_table_lookup (packet_src d) (packet_dst d) s \<noteq> Some m"
  proof
    assume "flow_table_lookup (packet_src d) (packet_dst d) s = Some m"
    then have a: "rule_matches (flow_table s ! m) (packet_src d) (packet_dst d)"
      and b: "\<forall>i<m. \<not> rule_matches (flow_table s ! i) (packet_src d) (packet_dst d)"
      by (simp_all add: lookup_Some_iff)
    from a have "src_addr (flow_table s ! m) = packet_src d"
      "dst_addr (flow_table s ! m) = packet_dst d" by (simp_all add: rule_matches_def)
    with sh b j show False by simp
  qed
  with pwp_frame(4) [OF ok m, of d] show ?thesis by simp
qed

lemma snd_process_all_Cons:
  "snd (process_all (d # ds) s) = snd (process_all ds (snd (process_wise_packet d s)))"
  by (simp split: prod.splits)

lemma fst_process_all_Cons:
  "fst (process_all (d # ds) s) =
     fst (process_wise_packet d s) @ fst (process_all ds (snd (process_wise_packet d s)))"
  by (simp split: prod.splits)

lemma process_all_frame:
  "table_ok s \<Longrightarrow>
   table_ok (snd (process_all ds s)) \<and>
   unat (flow_count s) \<le> unat (flow_count (snd (process_all ds s))) \<and>
   (\<forall>j<unat (flow_count s). same_policy (flow_table s ! j) (flow_table (snd (process_all ds s)) ! j))"
proof (induction ds arbitrary: s)
  case Nil
  then show ?case by (simp add: same_policy_def)
next
  case (Cons d ds)
  let ?s1 = "snd (process_wise_packet d s)"
  note f = pwp_frame [OF Cons.prems, where d = d]
  note ih = Cons.IH [OF f(1)]
  have "same_policy (flow_table s ! j) (flow_table (snd (process_all ds ?s1)) ! j)"
    if "j < unat (flow_count s)" for j
  proof -
    from that f(2) have "j < unat (flow_count ?s1)" by simp
    with ih have "same_policy (flow_table ?s1 ! j) (flow_table (snd (process_all ds ?s1)) ! j)"
      by simp
    with f(3) [OF that] show ?thesis by (simp add: same_policy_def)
  qed
  with ih f(2) show ?case unfolding snd_process_all_Cons by auto
qed

lemma process_all_lookup_stable:
  "table_ok s \<Longrightarrow> flow_table_lookup src dst s = Some n \<Longrightarrow>
   flow_table_lookup src dst (snd (process_all ds s)) = Some n"
proof (induction ds arbitrary: s)
  case Nil
  then show ?case by simp
next
  case (Cons d ds)
  from Cons.IH [OF pwp_frame(1) [OF Cons.prems(1)] pwp_lookup_stable [OF Cons.prems], of d]
  show ?case unfolding snd_process_all_Cons .
qed

lemma process_all_count_first:
  "table_ok s \<Longrightarrow> flow_table_lookup src dst s = Some n \<Longrightarrow>
   packet_count (flow_table (snd (process_all ds s)) ! n) =
     packet_count (flow_table s ! n) + of_nat (length (filter (is_data_for src dst) ds))"
proof (induction ds arbitrary: s)
  case Nil
  then show ?case by simp
next
  case (Cons d ds)
  from Cons.IH [OF pwp_frame(1) [OF Cons.prems(1)] pwp_lookup_stable [OF Cons.prems], of d]
    pwp_count_first [OF Cons.prems, of d]
  show ?case unfolding snd_process_all_Cons by simp
qed

lemma process_all_shadowed:
  "table_ok s \<Longrightarrow> m < unat (flow_count s) \<Longrightarrow> j < m \<Longrightarrow>
   rule_matches (flow_table s ! j) (src_addr (flow_table s ! m)) (dst_addr (flow_table s ! m)) \<Longrightarrow>
   packet_count (flow_table (snd (process_all ds s)) ! m) = packet_count (flow_table s ! m)"
proof (induction ds arbitrary: s)
  case Nil
  then show ?case by simp
next
  case (Cons d ds)
  let ?s1 = "snd (process_wise_packet d s)"
  note f = pwp_frame [OF Cons.prems(1), where d = d]
  from Cons.prems(2) f(2) have m1: "m < unat (flow_count ?s1)" by simp
  from Cons.prems(2,3) have j0: "j < unat (flow_count s)" by simp
  have pm: "same_policy (flow_table s ! m) (flow_table ?s1 ! m)" using f(3) [OF Cons.prems(2)] .
  have pj: "same_policy (flow_table s ! j) (flow_table ?s1 ! j)" using f(3) [OF j0] .
  from pm have "src_addr (flow_table ?s1 ! m) = src_addr (flow_table s ! m)"
    "dst_addr (flow_table ?s1 ! m) = dst_addr (flow_table s ! m)" by (simp_all add: same_policy_def)
  with Cons.prems(4) pj have
    "rule_matches (flow_table ?s1 ! j) (src_addr (flow_table ?s1 ! m)) (dst_addr (flow_table ?s1 ! m))"
    by (simp add: rule_matches_same_policy)
  from Cons.IH [OF f(1) m1 Cons.prems(3) this] pwp_shadowed [OF Cons.prems, of d]
  show ?case unfolding snd_process_all_Cons by simp
qed


section \<open>Capacity of the flow table\<close>

text \<open>
  Claim C1. Starting from a cleared table, any sequence of at most \<^verbatim>\<open>MAX_FLOW_RULES\<close> = 10
  calls of \<^verbatim>\<open>flow_table_add\<close> returns 0 every time and leaves exactly as many active
  rules as there were calls, the counter equal to that number and slot \<open>k\<close> holding the
  rule of call \<open>k\<close>. A call made when the counter equals 10 returns \<open>-1\<close> (the table-full
  result) and returns the state it was given: every rule, the counter and the statistics
  are unchanged.
\<close>

theorem flow_table_add_capacity:
  "(length rs \<le> MAX_FLOW_RULES \<longrightarrow>
      fst (flow_table_add_all rs (snd (flow_table_clear s0))) = replicate (length rs) 0 \<and>
      active_rules (snd (flow_table_add_all rs (snd (flow_table_clear s0)))) = length rs \<and>
      unat (flow_count (snd (flow_table_add_all rs (snd (flow_table_clear s0))))) = length rs \<and>
      (\<forall>k<length rs.
         flow_table (snd (flow_table_add_all rs (snd (flow_table_clear s0)))) ! k =
           new_rule (rs ! k))) \<and>
   (unat (flow_count s) = MAX_FLOW_RULES \<longrightarrow>
      flow_table_add src dst act nh s = (-1, [FlowTableFull], s))"
proof (intro conjI impI)
  assume "unat (flow_count s) = 10"
  then show "flow_table_add src dst act nh s = (-1, [FlowTableFull], s)"
    by (simp add: flow_table_add_full)
next
  let ?c = "snd (flow_table_clear s0)"
  assume len: "length rs \<le> 10"
  have c0: "unat (flow_count ?c) = 0" by (simp add: flow_table_clear_def)
  with len have "unat (flow_count ?c) + length rs \<le> 10" by simp
  note all = add_all_room [OF active_prefix_clear this]
  show "fst (flow_table_add_all rs ?c) = replicate (length rs) 0" using all by simp
  show "unat (flow_count (snd (flow_table_add_all rs ?c))) = length rs"
    using all c0 by simp
  then show "active_rules (snd (flow_table_add_all rs ?c)) = length rs"
    using all active_prefix_count by simp
  show "\<forall>k<length rs. flow_table (snd (flow_table_add_all rs ?c)) ! k = new_rule (rs ! k)"
    using all c0 by simp
qed

theorem flow_table_add_capacity_witness:
  "length (replicate 10 (1 :: u16, 2 :: u16, 1 :: u8, 3 :: u16)) \<le> MAX_FLOW_RULES \<and>
   fst (flow_table_add_all (replicate 10 (1, 2, 1, 3)) (snd (flow_table_clear initial_state)))
     = replicate 10 0 \<and>
   active_rules (snd (flow_table_add_all (replicate 10 (1, 2, 1, 3))
     (snd (flow_table_clear initial_state)))) = 10 \<and>
   unat (flow_count (snd (flow_table_add_all (replicate 10 (1, 2, 1, 3))
     (snd (flow_table_clear initial_state))))) = MAX_FLOW_RULES \<and>
   flow_table_add 7 8 1 9 (snd (flow_table_add_all (replicate 10 (1, 2, 1, 3))
     (snd (flow_table_clear initial_state)))) =
     (-1, [FlowTableFull], snd (flow_table_add_all (replicate 10 (1, 2, 1, 3))
     (snd (flow_table_clear initial_state))))"
  using flow_table_add_capacity [of "replicate 10 (1, 2, 1, 3)" initial_state
      "snd (flow_table_add_all (replicate 10 (1, 2, 1, 3)) (snd (flow_table_clear initial_state)))"
      7 8 1 9]
  by simp


section \<open>Lookup after an insertion\<close>

lemma add_effect:
  assumes "table_ok s" "unat (flow_count s) < 10"
  shows "fst (flow_table_add src dst act nh s) = 0"
    and "table_ok (snd (snd (flow_table_add src dst act nh s)))"
    and "unat (flow_count (snd (snd (flow_table_add src dst act nh s)))) = Suc (unat (flow_count s))"
    and "flow_table (snd (snd (flow_table_add src dst act nh s))) ! unat (flow_count s) =
           new_rule (src, dst, act, nh)"
    and "j < unat (flow_count s) \<Longrightarrow>
           flow_table (snd (snd (flow_table_add src dst act nh s))) ! j = flow_table s ! j"
    and "stats (snd (snd (flow_table_add src dst act nh s))) = stats s"
  using assms
  by (simp_all add: flow_table_add_room table_ok_def u8_count_succ new_rule_def)

lemma same_policy_eq:
  "same_policy r r' \<Longrightarrow> r' = r\<lparr>packet_count := packet_count r'\<rparr>"
  by (simp add: same_policy_def)

lemma new_rule_matches: "rule_matches (new_rule (src, dst, act, nh)) src dst"
  by (simp add: new_rule_def rule_matches_def)

lemma add_lookup_first:
  assumes ok: "table_ok s" and room: "unat (flow_count s) < 10"
    and none: "flow_table_lookup src dst s = None"
  shows "flow_table_lookup src dst (snd (snd (flow_table_add src dst act nh s)))
           = Some (unat (flow_count s))"
proof -
  note e = add_effect [OF ok room, where src = src and dst = dst and act = act and nh = nh]
  have "\<not> rule_matches (flow_table (snd (snd (flow_table_add src dst act nh s))) ! j) src dst"
    if "j < unat (flow_count s)" for j
    using none that e(5) [OF that] by (simp add: lookup_None_iff)
  then show ?thesis
    using e(3,4) by (simp add: lookup_Some_iff new_rule_matches)
qed

text \<open>
  Claim C3. On a cleared table the lookup returns nothing, whatever the key. After rule
  \<open>R = (src, dst, act, nh)\<close> is inserted into a table that has a free slot and holds no
  rule for \<open>(src, dst)\<close> yet (the empty table is one), the lookup of \<open>(src, dst)\<close>
  returns the slot of \<open>R\<close>, and it still does after any run \<open>ds\<close> of received packets;
  the slot then holds \<open>R\<close> with a packet counter equal to the number of packets of the run
  that reached the lookup with this key: one increment per lookup, modulo \<open>2 ^ 32\<close>. The
  increment is the statement after the call in the \<^verbatim>\<open>WISE_TYPE_DATA\<close> branch, the only
  place that calls the lookup.
\<close>

theorem flow_table_lookup_after_insert:
  "flow_table_lookup src dst (snd (flow_table_clear s0)) = None \<and>
   (table_ok s \<and> unat (flow_count s) < MAX_FLOW_RULES \<and> flow_table_lookup src dst s = None \<longrightarrow>
      flow_table_lookup src dst (snd (snd (flow_table_add src dst act nh s)))
        = Some (unat (flow_count s)) \<and>
      flow_table (snd (snd (flow_table_add src dst act nh s))) ! unat (flow_count s)
        = new_rule (src, dst, act, nh) \<and>
      flow_table_lookup src dst
        (snd (process_all ds (snd (snd (flow_table_add src dst act nh s)))))
        = Some (unat (flow_count s)) \<and>
      flow_table (snd (process_all ds (snd (snd (flow_table_add src dst act nh s)))))
          ! unat (flow_count s)
        = (new_rule (src, dst, act, nh))
            \<lparr>packet_count := of_nat (length (filter (is_data_for src dst) ds))\<rparr>)"
proof (intro conjI impI; (elim conjE)?)
  show "flow_table_lookup src dst (snd (flow_table_clear s0)) = None"
    by (simp add: lookup_None_iff flow_table_clear_def)
next
  assume ok: "table_ok s" and room: "unat (flow_count s) < 10"
    and none: "flow_table_lookup src dst s = None"
  let ?s1 = "snd (snd (flow_table_add src dst act nh s))"
  let ?n = "unat (flow_count s)"
  note e = add_effect [OF ok room, where src = src and dst = dst and act = act and nh = nh]
  show first: "flow_table_lookup src dst ?s1 = Some ?n"
    using ok room none by (rule add_lookup_first)
  show slot: "flow_table ?s1 ! ?n = new_rule (src, dst, act, nh)" by (rule e(4))
  show "flow_table_lookup src dst (snd (process_all ds ?s1)) = Some ?n"
    using e(2) first by (rule process_all_lookup_stable)
  have "same_policy (flow_table ?s1 ! ?n) (flow_table (snd (process_all ds ?s1)) ! ?n)"
    using process_all_frame [OF e(2), of ds] e(3) by simp
  from same_policy_eq [OF this] process_all_count_first [OF e(2) first, of ds] slot
  show "flow_table (snd (process_all ds ?s1)) ! ?n
        = (new_rule (src, dst, act, nh))
            \<lparr>packet_count := of_nat (length (filter (is_data_for src dst) ds))\<rparr>"
    by (simp add: new_rule_def)
qed


theorem flow_table_lookup_after_insert_witness:
  "table_ok (snd (flow_table_clear initial_state)) \<and>
   unat (flow_count (snd (flow_table_clear initial_state))) < MAX_FLOW_RULES \<and>
   flow_table_lookup 1 2 (snd (flow_table_clear initial_state)) = None \<and>
   flow_table_lookup 1 2
     (snd (process_all [[7, 1, 0, 2, 0, 1, 5], [7, 1, 0, 9, 0, 1, 5], [7, 1, 0, 2, 0, 1, 4]]
        (snd (snd (flow_table_add 1 2 1 3 (snd (flow_table_clear initial_state))))))) = Some 0 \<and>
   flow_table
     (snd (process_all [[7, 1, 0, 2, 0, 1, 5], [7, 1, 0, 9, 0, 1, 5], [7, 1, 0, 2, 0, 1, 4]]
        (snd (snd (flow_table_add 1 2 1 3 (snd (flow_table_clear initial_state))))))) ! 0 =
     \<lparr>active = 1, src_addr = 1, dst_addr = 2, action = 1, next_hop = 3, packet_count = 2\<rparr>"
proof -
  have a: "table_ok (snd (flow_table_clear initial_state))" by (rule table_ok_clear)
  have b: "unat (flow_count (snd (flow_table_clear initial_state))) < 10"
    by (simp add: flow_table_clear_def)
  have c: "flow_table_lookup 1 2 (snd (flow_table_clear initial_state)) = None"
    by (simp add: lookup_None_iff flow_table_clear_def)
  have z: "unat (flow_count (snd (flow_table_clear initial_state))) = 0"
    by (simp add: flow_table_clear_def)
  have f: "length (filter (is_data_for 1 2)
      [[7, 1, 0, 2, 0, 1, 5], [7, 1, 0, 9, 0, 1, 5], [7, 1, 0, 2, 0, 1, 4]]) = 2"
    by (simp add: is_data_for_def packet_src_def packet_dst_def be16_def)
  from flow_table_lookup_after_insert [of 1 2 initial_state "snd (flow_table_clear initial_state)"
      1 3 "[[7, 1, 0, 2, 0, 1, 5], [7, 1, 0, 9, 0, 1, 5], [7, 1, 0, 2, 0, 1, 4]]"] a b c
  show ?thesis unfolding z f by (simp add: new_rule_def)
qed


section \<open>First match and shadowing\<close>

lemma add_twice:
  assumes ok: "table_ok s" and room: "unat (flow_count s) + 2 \<le> 10"
  shows "fst (flow_table_add_all [(src, dst, act, nh), (src', dst', act', nh')] s) = [0, 0]"
    and "table_ok (snd (flow_table_add_all [(src, dst, act, nh), (src', dst', act', nh')] s))"
    and "unat (flow_count (snd (flow_table_add_all [(src, dst, act, nh), (src', dst', act', nh')] s)))
           = unat (flow_count s) + 2"
    and "flow_table (snd (flow_table_add_all [(src, dst, act, nh), (src', dst', act', nh')] s))
           ! unat (flow_count s) = new_rule (src, dst, act, nh)"
    and "flow_table (snd (flow_table_add_all [(src, dst, act, nh), (src', dst', act', nh')] s))
           ! Suc (unat (flow_count s)) = new_rule (src', dst', act', nh')"
    and "j < unat (flow_count s) \<Longrightarrow>
           flow_table (snd (flow_table_add_all [(src, dst, act, nh), (src', dst', act', nh')] s)) ! j
             = flow_table s ! j"
proof -
  let ?s1 = "snd (snd (flow_table_add src dst act nh s))"
  let ?s2 = "snd (snd (flow_table_add src' dst' act' nh' ?s1))"
  from room have r1: "unat (flow_count s) < 10" by simp
  note e1 = add_effect [OF ok r1, where src = src and dst = dst and act = act and nh = nh]
  from room e1(3) have r2: "unat (flow_count ?s1) < 10" by simp
  note e2 = add_effect [OF e1(2) r2, where src = src' and dst = dst' and act = act' and nh = nh']
  have all: "flow_table_add_all [(src, dst, act, nh), (src', dst', act', nh')] s =
      ([fst (flow_table_add src dst act nh s), fst (flow_table_add src' dst' act' nh' ?s1)], ?s2)"
    by (simp split: prod.splits)
  show "fst (flow_table_add_all [(src, dst, act, nh), (src', dst', act', nh')] s) = [0, 0]"
    unfolding all using e1(1) e2(1) by simp
  show "table_ok (snd (flow_table_add_all [(src, dst, act, nh), (src', dst', act', nh')] s))"
    unfolding all using e2(2) by simp
  show "unat (flow_count (snd (flow_table_add_all [(src, dst, act, nh), (src', dst', act', nh')] s)))
           = unat (flow_count s) + 2"
    unfolding all using e1(3) e2(3) by simp
  show "flow_table (snd (flow_table_add_all [(src, dst, act, nh), (src', dst', act', nh')] s))
           ! unat (flow_count s) = new_rule (src, dst, act, nh)"
    unfolding all using e1(3,4) e2(5) [of "unat (flow_count s)"] by simp
  show "flow_table (snd (flow_table_add_all [(src, dst, act, nh), (src', dst', act', nh')] s))
           ! Suc (unat (flow_count s)) = new_rule (src', dst', act', nh')"
    unfolding all using e1(3) e2(4) by simp
  show "flow_table (snd (flow_table_add_all [(src, dst, act, nh), (src', dst', act', nh')] s)) ! j
             = flow_table s ! j" if "j < unat (flow_count s)"
    unfolding all using that e1(3) e1(5) [of j] e2(5) [of j] by simp
qed

lemma process_all_keeps:
  "table_ok s \<Longrightarrow> j < unat (flow_count s) \<Longrightarrow>
   same_policy (flow_table s ! j) (flow_table (snd (process_all ds s)) ! j)"
  using process_all_frame [of s ds] by simp

text \<open>
  Claim C2. The lookup returns slot \<open>n\<close> exactly when \<open>n\<close> is below the counter, the rule in
  slot \<open>n\<close> is active with the source and destination asked for, and no lower slot is; it
  returns nothing exactly when no slot below the counter is such a rule. So when \<open>R1\<close> and
  then \<open>R2\<close> are inserted with the same source and destination (both insertions
  succeeding), then after any run \<open>ds\<close> of received packets the lookup of that key is never
  the slot of \<open>R2\<close>, and that slot still holds \<open>R2\<close> as inserted, its packet counter 0;
  and when no rule for the key preceded \<open>R1\<close>, the lookup returns the slot of \<open>R1\<close>, which
  holds \<open>R1\<close> up to its packet counter.
\<close>

theorem flow_table_lookup_first_match:
  "(flow_table_lookup src dst s = Some n \<longleftrightarrow>
      n < unat (flow_count s) \<and> rule_matches (flow_table s ! n) src dst \<and>
      (\<forall>j<n. \<not> rule_matches (flow_table s ! j) src dst)) \<and>
   (flow_table_lookup src dst s = None \<longleftrightarrow>
      (\<forall>j<unat (flow_count s). \<not> rule_matches (flow_table s ! j) src dst)) \<and>
   (table_ok s \<and> unat (flow_count s) + 2 \<le> MAX_FLOW_RULES \<longrightarrow>
      fst (flow_table_add_all [(src, dst, a1, h1), (src, dst, a2, h2)] s) = [0, 0] \<and>
      flow_table_lookup src dst
        (snd (process_all ds (snd (flow_table_add_all [(src, dst, a1, h1), (src, dst, a2, h2)] s))))
        \<noteq> Some (Suc (unat (flow_count s))) \<and>
      flow_table
        (snd (process_all ds (snd (flow_table_add_all [(src, dst, a1, h1), (src, dst, a2, h2)] s))))
        ! Suc (unat (flow_count s)) = new_rule (src, dst, a2, h2) \<and>
      (flow_table_lookup src dst s = None \<longrightarrow>
         flow_table_lookup src dst
           (snd (process_all ds (snd (flow_table_add_all [(src, dst, a1, h1), (src, dst, a2, h2)] s))))
           = Some (unat (flow_count s)) \<and>
         same_policy (new_rule (src, dst, a1, h1))
           (flow_table
             (snd (process_all ds (snd (flow_table_add_all [(src, dst, a1, h1), (src, dst, a2, h2)] s))))
             ! unat (flow_count s))))"
  supply flow_table_add_all.simps [simp del]
proof (intro conjI impI; (elim conjE)?)
  show "flow_table_lookup src dst s = Some n \<longleftrightarrow>
      n < unat (flow_count s) \<and> rule_matches (flow_table s ! n) src dst \<and>
      (\<forall>j<n. \<not> rule_matches (flow_table s ! j) src dst)"
    by (rule lookup_Some_iff)
  show "flow_table_lookup src dst s = None \<longleftrightarrow>
      (\<forall>j<unat (flow_count s). \<not> rule_matches (flow_table s ! j) src dst)"
    by (rule lookup_None_iff)
next
  assume ok: "table_ok s" and room: "unat (flow_count s) + 2 \<le> 10"
  let ?n = "unat (flow_count s)"
  let ?s2 = "snd (flow_table_add_all [(src, dst, a1, h1), (src, dst, a2, h2)] s)"
  let ?s' = "snd (process_all ds ?s2)"
  note t = add_twice [OF ok room, where src = src and dst = dst and act = a1 and nh = h1
      and src' = src and dst' = dst and act' = a2 and nh' = h2]
  have lt: "?n < unat (flow_count ?s2)" "Suc ?n < unat (flow_count ?s2)"
    using t(3) by simp_all
  show "fst (flow_table_add_all [(src, dst, a1, h1), (src, dst, a2, h2)] s) = [0, 0]"
    by (rule t(1))
  have p1: "same_policy (new_rule (src, dst, a1, h1)) (flow_table ?s' ! ?n)"
    using process_all_keeps [OF t(2) lt(1), of ds] t(4) by simp
  have p2: "same_policy (new_rule (src, dst, a2, h2)) (flow_table ?s' ! Suc ?n)"
    using process_all_keeps [OF t(2) lt(2), of ds] t(5) by simp
  have m1: "rule_matches (flow_table ?s' ! ?n) src dst"
    using p1 by (simp add: rule_matches_same_policy new_rule_matches)
  then show "flow_table_lookup src dst ?s' \<noteq> Some (Suc ?n)"
    by (auto simp: lookup_Some_iff)
  have "rule_matches (flow_table ?s2 ! ?n) (src_addr (flow_table ?s2 ! Suc ?n))
      (dst_addr (flow_table ?s2 ! Suc ?n))"
    using t(4,5) by (simp add: new_rule_def rule_matches_def)
  from process_all_shadowed [OF t(2) lt(2) _ this, of ds] t(5)
  have "packet_count (flow_table ?s' ! Suc ?n) = 0" by (simp add: new_rule_def)
  with same_policy_eq [OF p2] show "flow_table ?s' ! Suc ?n = new_rule (src, dst, a2, h2)"
    by (simp add: new_rule_def)
  show "same_policy (new_rule (src, dst, a1, h1)) (flow_table ?s' ! ?n)"
    if "flow_table_lookup src dst s = None" by (rule p1)
  show "flow_table_lookup src dst ?s' = Some ?n" if none: "flow_table_lookup src dst s = None"
  proof -
    have "\<not> rule_matches (flow_table ?s2 ! j) src dst" if "j < ?n" for j
      using none that t(6) [OF that] by (simp add: lookup_None_iff)
    then have "flow_table_lookup src dst ?s2 = Some ?n"
      using t(3,4) by (simp add: lookup_Some_iff new_rule_matches)
    with t(2) show ?thesis by (rule process_all_lookup_stable)
  qed
qed

theorem flow_table_lookup_first_match_witness:
  "table_ok (snd (flow_table_clear initial_state)) \<and>
   unat (flow_count (snd (flow_table_clear initial_state))) + 2 \<le> MAX_FLOW_RULES \<and>
   flow_table_lookup 1 2 (snd (flow_table_clear initial_state)) = None \<and>
   fst (flow_table_add_all [(1, 2, 1, 3), (1, 2, 1, 4)] (snd (flow_table_clear initial_state)))
     = [0, 0] \<and>
   flow_table_lookup 1 2
     (snd (process_all [[7, 1, 0, 2, 0, 1, 5], [7, 1, 0, 2, 0, 1, 4]]
        (snd (flow_table_add_all [(1, 2, 1, 3), (1, 2, 1, 4)]
           (snd (flow_table_clear initial_state)))))) = Some 0 \<and>
   flow_table
     (snd (process_all [[7, 1, 0, 2, 0, 1, 5], [7, 1, 0, 2, 0, 1, 4]]
        (snd (flow_table_add_all [(1, 2, 1, 3), (1, 2, 1, 4)]
           (snd (flow_table_clear initial_state)))))) ! 1 =
     \<lparr>active = 1, src_addr = 1, dst_addr = 2, action = 1, next_hop = 4, packet_count = 0\<rparr>"
proof -
  have a: "table_ok (snd (flow_table_clear initial_state))" by (rule table_ok_clear)
  have z: "unat (flow_count (snd (flow_table_clear initial_state))) = 0"
    by (simp add: flow_table_clear_def)
  have c: "flow_table_lookup 1 2 (snd (flow_table_clear initial_state)) = None"
    by (simp add: lookup_None_iff flow_table_clear_def)
  from flow_table_lookup_first_match [of 1 2 "snd (flow_table_clear initial_state)" 0
      1 3 1 4 "[[7, 1, 0, 2, 0, 1, 5], [7, 1, 0, 2, 0, 1, 4]]"] a c
  show ?thesis unfolding z by (simp add: new_rule_def)
qed


section \<open>Short buffers\<close>

lemma pwp_log:
  "fst (process_wise_packet d s) =
     (if length d < 7 then [PacketTooShort (length d)]
      else packet_rx d #
        (if d ! 1 = 0x12 then
           (if 14 \<le> length d then
              (if unat (flow_count s) < 10
               then [FlowAdded (packet_src d) (packet_dst d) (d ! 7) (be16 (d ! 8) (d ! 9))]
               else [FlowTableFull])
            else [])
         else if d ! 1 = 1 then
           (case flow_table_lookup (packet_src d) (packet_dst d) s of
              Some i \<Rightarrow> [ForwardingTo (next_hop (flow_table s ! i))]
            | None \<Rightarrow> [NoFlowRule])
         else if d ! 1 = 0x10 then [ConfigurationPacket]
         else [UnknownPacketType (d ! 1)]))"
proof (cases "length d < 7")
  case True
  then show ?thesis by (simp add: pwp_short)
next
  case long: False
  then have len: "7 \<le> length d" by simp
  consider (rule) "d ! 1 = 0x12" | (data) "d ! 1 = 1" | (config) "d ! 1 = 0x10"
    | (other) "d ! 1 \<noteq> 0x12" "d ! 1 \<noteq> 1" "d ! 1 \<noteq> 0x10" by blast
  then show ?thesis
  proof cases
    case rule
    show ?thesis
    proof (cases "14 \<le> length d")
      case True
      show ?thesis
      proof (cases "unat (flow_count s) < 10")
        case room: True
        then have "unat (flow_count (received s)) < 10" by (simp add: received_def)
        from flow_table_add_room [OF this] room True rule long show ?thesis
          by (simp add: pwp_flow_rule)
      next
        case False
        then have "10 \<le> unat (flow_count (received s))" by (simp add: received_def)
        from flow_table_add_full [OF this] False True rule long show ?thesis
          by (simp add: pwp_flow_rule)
      qed
    next
      case False
      with rule len show ?thesis by (simp add: pwp_flow_rule_short)
    qed
  next
    case data
    with len show ?thesis
      by (cases "flow_table_lookup (packet_src d) (packet_dst d) s")
         (simp_all add: pwp_data_hit pwp_data_miss)
  next
    case config
    with len show ?thesis by (simp add: pwp_config)
  next
    case other
    with len show ?thesis by (simp add: pwp_unknown)
  qed
qed

lemma pwp_received:
  "7 \<le> length d \<Longrightarrow>
   packets_received (stats (snd (process_wise_packet d s))) = packets_received (stats s) + 1"
  by (simp add: pwp_state received_def split: option.splits)

text \<open>
  Claim C4. On a buffer of fewer than 7 bytes \<^verbatim>\<open>process_wise_packet\<close> logs that the packet
  is too short and returns the state it was given: the flow table, the rule counter and the
  four statistics, \<^verbatim>\<open>packets_received\<close> among them, are unchanged, no header line is
  logged, and the result does not depend on any byte of the buffer. On a buffer of exactly 7
  bytes the header is decoded (the first line logged carries its type, source, destination
  and TTL), the buffer is not reported as too short, \<^verbatim>\<open>packets_received\<close> is incremented,
  and no payload is read: the rule counter is unchanged, and a \<^verbatim>\<open>FLOW_RULE\<close> tag installs
  nothing.
\<close>

theorem short_buffer_rejected:
  "(length d < 7 \<longrightarrow> process_wise_packet d s = ([PacketTooShort (length d)], s)) \<and>
   (length d = 7 \<longrightarrow>
      hd (fst (process_wise_packet d s)) =
        RX (d ! 1) (be16 (d ! 4) (d ! 5)) (be16 (d ! 2) (d ! 3)) (d ! 6) \<and>
      (\<forall>k. PacketTooShort k \<notin> set (fst (process_wise_packet d s))) \<and>
      packets_received (stats (snd (process_wise_packet d s))) = packets_received (stats s) + 1 \<and>
      flow_count (snd (process_wise_packet d s)) = flow_count s \<and>
      (d ! 1 = WISE_TYPE_FLOW_RULE \<longrightarrow>
         process_wise_packet d s =
           ([RX (d ! 1) (be16 (d ! 4) (d ! 5)) (be16 (d ! 2) (d ! 3)) (d ! 6)], received s)))"
proof (intro conjI impI allI)
  assume "length d < 7"
  then show "process_wise_packet d s = ([PacketTooShort (length d)], s)" by (rule pwp_short)
next
  assume seven: "length d = 7"
  show "hd (fst (process_wise_packet d s)) =
      RX (d ! 1) (be16 (d ! 4) (d ! 5)) (be16 (d ! 2) (d ! 3)) (d ! 6)"
    using seven by (simp add: pwp_log packet_rx_def packet_src_def packet_dst_def)
  show "PacketTooShort k \<notin> set (fst (process_wise_packet d s))" for k
    using seven by (simp add: pwp_log packet_rx_def split: option.splits)
  show "packets_received (stats (snd (process_wise_packet d s))) = packets_received (stats s) + 1"
    using seven by (simp add: pwp_received)
  show "flow_count (snd (process_wise_packet d s)) = flow_count s"
    using seven by (simp add: pwp_state received_def split: option.splits)
  show "process_wise_packet d s =
      ([RX (d ! 1) (be16 (d ! 4) (d ! 5)) (be16 (d ! 2) (d ! 3)) (d ! 6)], received s)"
    if "d ! 1 = 0x12"
    using seven that pwp_flow_rule_short [of d s]
    by (simp add: packet_rx_def packet_src_def packet_dst_def)
qed

theorem short_buffer_rejected_witness:
  "length [6 :: u8, 1, 0, 2, 0, 1] < 7 \<and>
   process_wise_packet [6, 1, 0, 2, 0, 1] initial_state = ([PacketTooShort 6], initial_state) \<and>
   length [7 :: u8, 0x12, 0, 2, 0, 1, 9] = 7 \<and>
   process_wise_packet [7, 0x12, 0, 2, 0, 1, 9] initial_state =
     ([RX 0x12 1 2 9], received initial_state)"
  using short_buffer_rejected [of "[6, 1, 0, 2, 0, 1]" initial_state]
    short_buffer_rejected [of "[7, 0x12, 0, 2, 0, 1, 9]" initial_state]
  by (simp add: be16_def)

section \<open>Data packets without a rule\<close>

text \<open>
  Claim C5. A \<^verbatim>\<open>WISE_TYPE_DATA\<close> packet (at least 7 bytes) whose source and destination
  match no active rule below the counter logs the header line and the no-rule warning, and
  the state it returns differs from the one given only in \<^verbatim>\<open>packets_received\<close> and
  \<^verbatim>\<open>packets_dropped\<close>, each incremented by 1: the flow table with every packet counter,
  the rule counter, \<^verbatim>\<open>packets_sent\<close> and \<^verbatim>\<open>packets_forwarded\<close> are unchanged.
\<close>

theorem data_miss_dropped:
  "7 \<le> length d \<and> d ! 1 = WISE_TYPE_DATA \<and>
   (\<forall>j<unat (flow_count s). \<not> rule_matches (flow_table s ! j) (packet_src d) (packet_dst d)) \<longrightarrow>
   process_wise_packet d s =
     ([packet_rx d, NoFlowRule],
      s\<lparr>stats := (stats s)\<lparr>packets_received := packets_received (stats s) + 1,
                           packets_dropped := packets_dropped (stats s) + 1\<rparr>\<rparr>) \<and>
   flow_table (snd (process_wise_packet d s)) = flow_table s \<and>
   flow_count (snd (process_wise_packet d s)) = flow_count s \<and>
   packets_received (stats (snd (process_wise_packet d s))) = packets_received (stats s) + 1 \<and>
   packets_dropped (stats (snd (process_wise_packet d s))) = packets_dropped (stats s) + 1 \<and>
   packets_sent (stats (snd (process_wise_packet d s))) = packets_sent (stats s) \<and>
   packets_forwarded (stats (snd (process_wise_packet d s))) = packets_forwarded (stats s)"
proof (intro impI, elim conjE)
  assume len: "7 \<le> length d" and ty: "d ! 1 = 1"
    and "\<forall>j<unat (flow_count s). \<not> rule_matches (flow_table s ! j) (packet_src d) (packet_dst d)"
  then have "flow_table_lookup (packet_src d) (packet_dst d) s = None"
    by (simp add: lookup_None_iff)
  from pwp_data_miss [OF len ty this] show
   "process_wise_packet d s =
     ([packet_rx d, NoFlowRule],
      s\<lparr>stats := (stats s)\<lparr>packets_received := packets_received (stats s) + 1,
                           packets_dropped := packets_dropped (stats s) + 1\<rparr>\<rparr>) \<and>
   flow_table (snd (process_wise_packet d s)) = flow_table s \<and>
   flow_count (snd (process_wise_packet d s)) = flow_count s \<and>
   packets_received (stats (snd (process_wise_packet d s))) = packets_received (stats s) + 1 \<and>
   packets_dropped (stats (snd (process_wise_packet d s))) = packets_dropped (stats s) + 1 \<and>
   packets_sent (stats (snd (process_wise_packet d s))) = packets_sent (stats s) \<and>
   packets_forwarded (stats (snd (process_wise_packet d s))) = packets_forwarded (stats s)"
    by simp
qed


theorem data_miss_dropped_witness:
  "7 \<le> length [7 :: u8, 1, 0, 2, 0, 1, 5] \<and> [7 :: u8, 1, 0, 2, 0, 1, 5] ! 1 = WISE_TYPE_DATA \<and>
   flow_table_lookup (packet_src [7, 1, 0, 2, 0, 1, 5]) (packet_dst [7, 1, 0, 2, 0, 1, 5])
     one_rule_state = None \<and>
   process_wise_packet [7, 1, 0, 2, 0, 1, 5] one_rule_state =
     ([RX 1 1 2 5, NoFlowRule],
      one_rule_state\<lparr>stats := \<lparr>packets_sent = 0, packets_received = 1, packets_forwarded = 0,
               packets_dropped = 1\<rparr>\<rparr>)"
proof -
  have h: "\<forall>j<unat (flow_count one_rule_state).
      \<not> rule_matches (flow_table one_rule_state ! j)
        (packet_src [7, 1, 0, 2, 0, 1, 5]) (packet_dst [7, 1, 0, 2, 0, 1, 5])"
    by (simp add: one_rule_state_def rule_matches_def packet_src_def be16_def)
  then have n: "flow_table_lookup (packet_src [7, 1, 0, 2, 0, 1, 5])
      (packet_dst [7, 1, 0, 2, 0, 1, 5]) one_rule_state = None"
    by (simp only: lookup_None_iff)
  from data_miss_dropped [of "[7, 1, 0, 2, 0, 1, 5]" one_rule_state] h n
  show ?thesis
    by (simp add: packet_rx_def packet_src_def packet_dst_def be16_def one_rule_state_def)
qed

section \<open>Counting received packets\<close>

text \<open>
  Claim C9, as stated, fails: \<^verbatim>\<open>process_wise_packet\<close> called on a 6-byte buffer returns at
  the length test, before \<^verbatim>\<open>packets_received\<close> is touched.
\<close>

theorem received_not_counted_for_short_buffer:
  "packets_received (stats (snd (process_wise_packet [6, 1, 0, 2, 0, 1] initial_state))) =
     packets_received (stats initial_state) \<and>
   packets_received (stats (snd (process_wise_packet [6, 1, 0, 2, 0, 1] initial_state))) \<noteq>
     packets_received (stats initial_state) + 1"
  by (simp add: pwp_short initial_state_def)

text \<open>
  Claim C9, amended. Every call of \<^verbatim>\<open>process_wise_packet\<close> on a buffer of at least 7
  bytes increments \<^verbatim>\<open>packets_received\<close> by exactly 1, whatever the type tag, and logs
  the header line first; the increment precedes the tests on the tag in the function. A call
  on a shorter buffer leaves \<^verbatim>\<open>packets_received\<close> as it was.
\<close>

theorem received_counted_once:
  "(7 \<le> length d \<longrightarrow>
      packets_received (stats (snd (process_wise_packet d s))) = packets_received (stats s) + 1 \<and>
      hd (fst (process_wise_packet d s)) = packet_rx d) \<and>
   (length d < 7 \<longrightarrow>
      packets_received (stats (snd (process_wise_packet d s))) = packets_received (stats s))"
  by (simp add: pwp_received pwp_log pwp_short)

theorem received_counted_once_witness:
  "7 \<le> length [7 :: u8, 0x55, 0, 2, 0, 1, 5] \<and>
   packets_received (stats (snd (process_wise_packet [7, 0x55, 0, 2, 0, 1, 5] initial_state))) = 1 \<and>
   length [6 :: u8, 1, 0, 2, 0, 1] < 7 \<and>
   packets_received (stats (snd (process_wise_packet [6, 1, 0, 2, 0, 1] initial_state))) = 0"
  using received_counted_once [of "[7, 0x55, 0, 2, 0, 1, 5]" initial_state]
    received_counted_once [of "[6, 1, 0, 2, 0, 1]" initial_state]
  by (simp add: initial_state_def)


section \<open>The stored action is not consulted\<close>

lemma lookup_cong:
  assumes "flow_count s' = flow_count s"
    and "\<And>k. k < unat (flow_count s) \<Longrightarrow>
           rule_matches (flow_table s' ! k) src dst = rule_matches (flow_table s ! k) src dst"
  shows "flow_table_lookup src dst s' = flow_table_lookup src dst s"
proof (cases "flow_table_lookup src dst s")
  case None
  then have "\<forall>j<unat (flow_count s). \<not> rule_matches (flow_table s ! j) src dst"
    by (simp add: lookup_None_iff)
  with assms have "flow_table_lookup src dst s' = None"
    by (simp add: lookup_None_iff)
  with None show ?thesis by simp
next
  case (Some n)
  then have "n < unat (flow_count s) \<and> rule_matches (flow_table s ! n) src dst \<and>
      (\<forall>j<n. \<not> rule_matches (flow_table s ! j) src dst)"
    by (simp add: lookup_Some_iff)
  with assms have "flow_table_lookup src dst s' = Some n"
    by (simp add: lookup_Some_iff)
  with Some show ?thesis by simp
qed

lemma action_count_commute:
  "r\<lparr>action := a, packet_count := c\<rparr> = r\<lparr>packet_count := c, action := a\<rparr>"
  for r :: flow_rule_t
  by (cases r) simp

lemma lookup_set_action [simp]:
  "flow_table_lookup src dst (set_action j a s) = flow_table_lookup src dst s"
proof (rule lookup_cong)
  show "flow_count (set_action j a s) = flow_count s" by (simp add: set_action_def)
  show "rule_matches (flow_table (set_action j a s) ! k) src dst =
        rule_matches (flow_table s ! k) src dst" for k
    by (cases "j < length (flow_table s)")
       (simp_all add: set_action_def nth_list_update rule_matches_def list_update_beyond)
qed

lemma set_action_fields [simp]:
  "flow_count (set_action j a s) = flow_count s"
  "stats (set_action j a s) = stats s"
  "length (flow_table (set_action j a s)) = length (flow_table s)"
  "next_hop (flow_table (set_action j a s) ! i) = next_hop (flow_table s ! i)"
  "packet_count (flow_table (set_action j a s) ! i) = packet_count (flow_table s ! i)"
  by (cases "j < length (flow_table s)"; cases "i = j";
      simp add: set_action_def list_update_beyond)+

lemma pwp_set_action_log:
  "fst (process_wise_packet d (set_action j a s)) = fst (process_wise_packet d s)"
  by (simp add: pwp_log split: option.splits)

lemma pwp_set_action_state:
  assumes ok: "table_ok s" and j: "j < unat (flow_count s)"
  shows "snd (process_wise_packet d (set_action j a s)) =
         set_action j a (snd (process_wise_packet d s))"
proof -
  from ok j have jl: "j < length (flow_table s)" by (simp add: table_ok_def)
  have upd: "(flow_table s)[j := (flow_table s ! j)\<lparr>action := a\<rparr>,
        i := ((flow_table s)[j := (flow_table s ! j)\<lparr>action := a\<rparr>] ! i)\<lparr>packet_count := c\<rparr>] =
      (flow_table s)[i := (flow_table s ! i)\<lparr>packet_count := c\<rparr>,
        j := ((flow_table s)[i := (flow_table s ! i)\<lparr>packet_count := c\<rparr>] ! j)\<lparr>action := a\<rparr>]"
    for i c
    using jl
    by (cases "i = j"; cases "i < length (flow_table s)")
       (simp_all add: action_count_commute list_update_swap list_update_beyond)
  have ins: "(flow_table s)[j := (flow_table s ! j)\<lparr>action := a\<rparr>, unat (flow_count s) := r] =
      (flow_table s)[unat (flow_count s) := r,
        j := ((flow_table s)[unat (flow_count s) := r] ! j)\<lparr>action := a\<rparr>]" for r
    using j by (simp add: list_update_swap)
  show ?thesis
    unfolding pwp_state [of d "set_action j a s"] pwp_state [of d s]
    apply (simp only: lookup_set_action set_action_fields)
    apply (auto simp: set_action_def received_def upd ins split: option.splits
        intro!: agent_state.equality)
    done
qed

lemma pwp_data_first_match:
  assumes len: "7 \<le> length d" and ty: "d ! 1 = 1"
    and i: "i < unat (flow_count s)"
    and m: "rule_matches (flow_table s ! i) (packet_src d) (packet_dst d)"
    and first: "\<forall>j<i. \<not> rule_matches (flow_table s ! j) (packet_src d) (packet_dst d)"
  shows "process_wise_packet d s =
     ([packet_rx d, ForwardingTo (next_hop (flow_table s ! i))],
      s\<lparr>flow_table := (flow_table s)[i := (flow_table s ! i)
             \<lparr>packet_count := packet_count (flow_table s ! i) + 1\<rparr>],
        stats := (stats s)\<lparr>packets_received := packets_received (stats s) + 1,
                           packets_forwarded := packets_forwarded (stats s) + 1\<rparr>\<rparr>)"
proof -
  from i m first have "flow_table_lookup (packet_src d) (packet_dst d) s = Some i"
    by (simp add: lookup_Some_iff)
  with len ty show ?thesis by (rule pwp_data_hit)
qed

lemma first_match_exists:
  fixes s :: agent_state
  assumes k: "k < unat (flow_count s)" and m: "rule_matches (flow_table s ! k) src dst"
  obtains i where "i \<le> k" "i < unat (flow_count s)" "rule_matches (flow_table s ! i) src dst"
    "\<forall>j<i. \<not> rule_matches (flow_table s ! j) src dst"
proof (cases "flow_table_lookup src dst s")
  case None
  with k m show ?thesis by (simp add: lookup_None_iff)
next
  case (Some i)
  then have i: "i < unat (flow_count s)" "rule_matches (flow_table s ! i) src dst"
    "\<forall>j<i. \<not> rule_matches (flow_table s ! j) src dst"
    by (simp_all add: lookup_Some_iff)
  have "\<not> k < i" using i(3) m by blast
  then have "i \<le> k" by simp
  with i that show ?thesis by blast
qed

text \<open>
  Claim C10. Take a \<^verbatim>\<open>WISE_TYPE_DATA\<close> packet of at least 7 bytes and a table in which
  slot \<open>i\<close>, below the counter, holds an active rule with the packet's source and
  destination and no lower slot does. Processing the packet logs the header line and the
  forwarding line with the next hop stored in slot \<open>i\<close>, increments
  \<^verbatim>\<open>packets_forwarded\<close> and the packet counter of slot \<open>i\<close> by 1 each, drops nothing and
  leaves the stored action as it was; the action stored in the slot appears in no
  condition. Whenever some slot \<open>k\<close> below the counter holds a matching active rule, the
  packet is so forwarded, to the next hop of a matching rule in a slot not above \<open>k\<close>.
  \<^verbatim>\<open>flow_table_add\<close> writes the action it is given into the slot it fills, and when no
  rule for the key was there before, a data packet for the key is then forwarded to the
  next hop given, whatever that action is (DROP = 0 and ASK_CONTROLLER = 2 included).
  Nothing reads the action: overwriting the action of any rule \<open>r\<close> of the table with any
  value \<open>a\<close> changes no lookup, and a packet \<open>q\<close> of any type processed afterwards logs the
  same lines and returns the same state, up to the overwritten action.
\<close>

theorem data_hit_forwards_whatever_action:
  "(table_ok s \<and> 7 \<le> length d \<and> d ! 1 = WISE_TYPE_DATA \<and>
    i < unat (flow_count s) \<and>
    rule_matches (flow_table s ! i) (packet_src d) (packet_dst d) \<and>
    (\<forall>j<i. \<not> rule_matches (flow_table s ! j) (packet_src d) (packet_dst d)) \<longrightarrow>
      process_wise_packet d s =
        ([packet_rx d, ForwardingTo (next_hop (flow_table s ! i))],
         s\<lparr>flow_table := (flow_table s)[i := (flow_table s ! i)
                \<lparr>packet_count := packet_count (flow_table s ! i) + 1\<rparr>],
           stats := (stats s)\<lparr>packets_received := packets_received (stats s) + 1,
                              packets_forwarded := packets_forwarded (stats s) + 1\<rparr>\<rparr>) \<and>
      packet_count (flow_table (snd (process_wise_packet d s)) ! i) =
        packet_count (flow_table s ! i) + 1 \<and>
      action (flow_table (snd (process_wise_packet d s)) ! i) = action (flow_table s ! i) \<and>
      packets_forwarded (stats (snd (process_wise_packet d s))) =
        packets_forwarded (stats s) + 1 \<and>
      packets_dropped (stats (snd (process_wise_packet d s))) = packets_dropped (stats s)) \<and>
   (table_ok s \<and> 7 \<le> length d \<and> d ! 1 = WISE_TYPE_DATA \<and>
    k < unat (flow_count s) \<and>
    rule_matches (flow_table s ! k) (packet_src d) (packet_dst d) \<longrightarrow>
      (\<exists>m\<le>k. rule_matches (flow_table s ! m) (packet_src d) (packet_dst d) \<and>
         fst (process_wise_packet d s) =
           [packet_rx d, ForwardingTo (next_hop (flow_table s ! m))] \<and>
         packet_count (flow_table (snd (process_wise_packet d s)) ! m) =
           packet_count (flow_table s ! m) + 1) \<and>
      packets_forwarded (stats (snd (process_wise_packet d s))) =
        packets_forwarded (stats s) + 1 \<and>
      packets_dropped (stats (snd (process_wise_packet d s))) = packets_dropped (stats s)) \<and>
   (table_ok s \<and> unat (flow_count s) < MAX_FLOW_RULES \<longrightarrow>
      flow_table (snd (snd (flow_table_add src dst act nh s))) ! unat (flow_count s) =
        \<lparr>active = 1, src_addr = src, dst_addr = dst, action = act, next_hop = nh,
         packet_count = 0\<rparr> \<and>
      (is_data_for src dst p \<and>
       (\<forall>j<unat (flow_count s). \<not> rule_matches (flow_table s ! j) src dst) \<longrightarrow>
         fst (process_wise_packet p (snd (snd (flow_table_add src dst act nh s)))) =
           [packet_rx p, ForwardingTo nh] \<and>
         flow_table (snd (process_wise_packet p (snd (snd (flow_table_add src dst act nh s)))))
             ! unat (flow_count s) =
           \<lparr>active = 1, src_addr = src, dst_addr = dst, action = act, next_hop = nh,
            packet_count = 1\<rparr> \<and>
         packets_forwarded
             (stats (snd (process_wise_packet p (snd (snd (flow_table_add src dst act nh s)))))) =
           packets_forwarded (stats s) + 1)) \<and>
   (table_ok s \<and> r < unat (flow_count s) \<longrightarrow>
      flow_table_lookup src dst (set_action r a s) = flow_table_lookup src dst s \<and>
      process_wise_packet q (set_action r a s) =
        (fst (process_wise_packet q s), set_action r a (snd (process_wise_packet q s))))"
proof (intro conjI impI; (elim conjE)?)
  assume ok: "table_ok s" and len: "7 \<le> length d" and ty: "d ! 1 = 1"
    and i: "i < unat (flow_count s)"
    and m: "rule_matches (flow_table s ! i) (packet_src d) (packet_dst d)"
    and first: "\<forall>j<i. \<not> rule_matches (flow_table s ! j) (packet_src d) (packet_dst d)"
  from ok i have il: "i < length (flow_table s)" by (simp add: table_ok_def)
  note run = pwp_data_first_match [OF len ty i m first]
  show "process_wise_packet d s =
        ([packet_rx d, ForwardingTo (next_hop (flow_table s ! i))],
         s\<lparr>flow_table := (flow_table s)[i := (flow_table s ! i)
                \<lparr>packet_count := packet_count (flow_table s ! i) + 1\<rparr>],
           stats := (stats s)\<lparr>packets_received := packets_received (stats s) + 1,
                              packets_forwarded := packets_forwarded (stats s) + 1\<rparr>\<rparr>)"
    by (rule run)
  show "packet_count (flow_table (snd (process_wise_packet d s)) ! i) =
        packet_count (flow_table s ! i) + 1"
    unfolding run using il by simp
  show "action (flow_table (snd (process_wise_packet d s)) ! i) = action (flow_table s ! i)"
    unfolding run using il by simp
  show "packets_forwarded (stats (snd (process_wise_packet d s))) =
        packets_forwarded (stats s) + 1"
    unfolding run by simp
  show "packets_dropped (stats (snd (process_wise_packet d s))) = packets_dropped (stats s)"
    unfolding run by simp
next
  assume ok: "table_ok s" and len: "7 \<le> length d" and ty: "d ! 1 = 1"
    and k: "k < unat (flow_count s)"
    and mk: "rule_matches (flow_table s ! k) (packet_src d) (packet_dst d)"
  from first_match_exists [OF k mk] obtain m where m: "m \<le> k" "m < unat (flow_count s)"
    "rule_matches (flow_table s ! m) (packet_src d) (packet_dst d)"
    "\<forall>j<m. \<not> rule_matches (flow_table s ! j) (packet_src d) (packet_dst d)"
    by blast
  from ok m(2) have ml: "m < length (flow_table s)" by (simp add: table_ok_def)
  note run = pwp_data_first_match [OF len ty m(2,3,4)]
  have "packet_count (flow_table (snd (process_wise_packet d s)) ! m) =
      packet_count (flow_table s ! m) + 1"
    unfolding run using ml by simp
  moreover have "fst (process_wise_packet d s) =
      [packet_rx d, ForwardingTo (next_hop (flow_table s ! m))]"
    unfolding run by simp
  ultimately show "\<exists>m\<le>k. rule_matches (flow_table s ! m) (packet_src d) (packet_dst d) \<and>
         fst (process_wise_packet d s) =
           [packet_rx d, ForwardingTo (next_hop (flow_table s ! m))] \<and>
         packet_count (flow_table (snd (process_wise_packet d s)) ! m) =
           packet_count (flow_table s ! m) + 1"
    using m(1,3) by blast
  show "packets_forwarded (stats (snd (process_wise_packet d s))) =
        packets_forwarded (stats s) + 1"
    unfolding run by simp
  show "packets_dropped (stats (snd (process_wise_packet d s))) = packets_dropped (stats s)"
    unfolding run by simp
next
  assume ok: "table_ok s" and room: "unat (flow_count s) < 10"
  note e = add_effect [OF ok room, where src = src and dst = dst and act = act and nh = nh]
  show slot: "flow_table (snd (snd (flow_table_add src dst act nh s))) ! unat (flow_count s) =
        \<lparr>active = 1, src_addr = src, dst_addr = dst, action = act, next_hop = nh,
         packet_count = 0\<rparr>"
    using e(4) by (simp add: new_rule_def)
  let ?s1 = "snd (snd (flow_table_add src dst act nh s))"
  let ?n = "unat (flow_count s)"
  assume data: "is_data_for src dst p"
    and none: "\<forall>j<unat (flow_count s). \<not> rule_matches (flow_table s ! j) src dst"
  from data have len: "7 \<le> length p" and ty: "p ! 1 = 1"
    and key: "packet_src p = src" "packet_dst p = dst"
    by (simp_all add: is_data_for_def)
  have n1: "?n < unat (flow_count ?s1)" using e(3) by simp
  have m1: "rule_matches (flow_table ?s1 ! ?n) (packet_src p) (packet_dst p)"
    unfolding key slot by (simp add: rule_matches_def)
  have f1: "\<forall>j<?n. \<not> rule_matches (flow_table ?s1 ! j) (packet_src p) (packet_dst p)"
    unfolding key using none e(5) by simp
  from e(2) n1 have nl: "?n < length (flow_table ?s1)" by (simp add: table_ok_def)
  note run = pwp_data_first_match [OF len ty n1 m1 f1]
  show "fst (process_wise_packet p ?s1) = [packet_rx p, ForwardingTo nh]"
    unfolding run using slot by simp
  show "flow_table (snd (process_wise_packet p ?s1)) ! ?n =
        \<lparr>active = 1, src_addr = src, dst_addr = dst, action = act, next_hop = nh,
         packet_count = 1\<rparr>"
    unfolding run using nl slot by simp
  show "packets_forwarded (stats (snd (process_wise_packet p ?s1))) =
        packets_forwarded (stats s) + 1"
    unfolding run using e(6) by simp
next
  assume ok: "table_ok s" and r: "r < unat (flow_count s)"
  show "flow_table_lookup src dst (set_action r a s) = flow_table_lookup src dst s"
    by (rule lookup_set_action)
  show "process_wise_packet q (set_action r a s) =
        (fst (process_wise_packet q s), set_action r a (snd (process_wise_packet q s)))"
    using pwp_set_action_log [of q r a s] pwp_set_action_state [OF ok r, of q a]
    by (intro prod_eqI) simp_all
qed


theorem data_hit_forwards_whatever_action_witness:
  "table_ok one_rule_state \<and> unat (flow_count one_rule_state) < MAX_FLOW_RULES \<and>
   flow_table (snd (snd (flow_table_add 1 2 0 7 one_rule_state))) ! 1 =
     \<lparr>active = 1, src_addr = 1, dst_addr = 2, action = 0, next_hop = 7, packet_count = 0\<rparr> \<and>
   table_ok (snd (snd (flow_table_add 1 2 0 7 one_rule_state))) \<and>
   7 \<le> length [7 :: u8, 1, 0, 2, 0, 1, 5] \<and> [7 :: u8, 1, 0, 2, 0, 1, 5] ! 1 = WISE_TYPE_DATA \<and>
   1 < unat (flow_count (snd (snd (flow_table_add 1 2 0 7 one_rule_state)))) \<and>
   rule_matches (flow_table (snd (snd (flow_table_add 1 2 0 7 one_rule_state))) ! 1)
     (packet_src [7, 1, 0, 2, 0, 1, 5]) (packet_dst [7, 1, 0, 2, 0, 1, 5]) \<and>
   \<not> rule_matches (flow_table (snd (snd (flow_table_add 1 2 0 7 one_rule_state))) ! 0)
     (packet_src [7, 1, 0, 2, 0, 1, 5]) (packet_dst [7, 1, 0, 2, 0, 1, 5]) \<and>
   fst (process_wise_packet [7, 1, 0, 2, 0, 1, 5]
     (snd (snd (flow_table_add 1 2 0 7 one_rule_state)))) = [RX 1 1 2 5, ForwardingTo 7] \<and>
   packets_forwarded (stats (snd (process_wise_packet [7, 1, 0, 2, 0, 1, 5]
     (snd (snd (flow_table_add 1 2 0 7 one_rule_state)))))) = 1 \<and>
   packets_dropped (stats (snd (process_wise_packet [7, 1, 0, 2, 0, 1, 5]
     (snd (snd (flow_table_add 1 2 0 7 one_rule_state)))))) = 0 \<and>
   flow_table (snd (process_wise_packet [7, 1, 0, 2, 0, 1, 5]
     (snd (snd (flow_table_add 1 2 0 7 one_rule_state))))) ! 1 =
     \<lparr>active = 1, src_addr = 1, dst_addr = 2, action = 0, next_hop = 7, packet_count = 1\<rparr> \<and>
   fst (process_wise_packet [7, 1, 0, 2, 0, 1, 5]
     (set_action 1 2 (snd (snd (flow_table_add 1 2 0 7 one_rule_state))))) =
     [RX 1 1 2 5, ForwardingTo 7]"
proof -
  let ?two = "snd (snd (flow_table_add 1 2 0 7 one_rule_state))"
  let ?d = "[7 :: u8, 1, 0, 2, 0, 1, 5]"
  have ok1: "table_ok one_rule_state" by (simp add: table_ok_def one_rule_state_def)
  have c1: "unat (flow_count one_rule_state) = 1" by (simp add: one_rule_state_def)
  have room: "unat (flow_count one_rule_state) < 10" unfolding c1 by simp
  have key: "packet_src ?d = 1" "packet_dst ?d = 2"
    by (simp_all add: packet_src_def packet_dst_def be16_def)
  have data: "is_data_for 1 2 ?d" by (simp add: is_data_for_def key)
  have none: "\<forall>j<unat (flow_count one_rule_state).
      \<not> rule_matches (flow_table one_rule_state ! j) 1 2"
    unfolding c1 by (simp add: one_rule_state_def rule_matches_def)
  note e = add_effect [OF ok1 room, where src = 1 and dst = 2 and act = 0 and nh = 7]
  have ok2: "table_ok ?two" by (rule e(2))
  have c2: "1 < unat (flow_count ?two)" using e(3) c1 by simp
  have slot1: "flow_table ?two ! 1 = new_rule (1, 2, 0, 7)" using e(4) c1 by simp
  have slot0: "flow_table ?two ! 0 = flow_table one_rule_state ! 0"
    using e(5) [of 0] c1 by simp
  have m1: "rule_matches (flow_table ?two ! 1) (packet_src ?d) (packet_dst ?d)"
    unfolding slot1 key by (rule new_rule_matches)
  have m0: "\<not> rule_matches (flow_table ?two ! 0) (packet_src ?d) (packet_dst ?d)"
    unfolding slot0 key by (simp add: one_rule_state_def rule_matches_def)
  then have first: "\<forall>j<1. \<not> rule_matches (flow_table ?two ! j) (packet_src ?d) (packet_dst ?d)"
    by simp
  have st: "stats ?two = stats one_rule_state" by (rule e(6))
  note a = data_hit_forwards_whatever_action [where s = one_rule_state and src = 1 and dst = 2
      and act = 0 and nh = 7 and p = ?d, THEN conjunct2, THEN conjunct2, THEN conjunct1,
      rule_format, OF conjI [OF ok1 room]]
  note a2 = a [THEN conjunct2, rule_format, OF conjI [OF data none]]
  note b = data_hit_forwards_whatever_action [where s = ?two and d = ?d and i = 1 and r = 1
      and a = 2 and q = ?d, THEN conjunct1, rule_format]
  note c = data_hit_forwards_whatever_action [where s = ?two and r = 1 and a = 2 and q = ?d,
      THEN conjunct2, THEN conjunct2, THEN conjunct2, rule_format, OF conjI [OF ok2 c2]]
  have b': "packets_dropped (stats (snd (process_wise_packet ?d ?two))) = packets_dropped (stats ?two)"
    using b ok2 c2 m1 first by simp
  have log_a: "fst (process_wise_packet ?d (set_action 1 2 ?two)) = fst (process_wise_packet ?d ?two)"
    using c [THEN conjunct2] by simp
  show ?thesis
    using ok1 room ok2 c2 m1 m0 a [THEN conjunct1] a2 b' log_a c1 st
    by (simp add: packet_rx_def key one_rule_state_def)
qed

section \<open>A rule installed by a packet\<close>

lemma table_ok_received [simp]: "table_ok (received s) = table_ok s"
  by (simp add: table_ok_def received_def)

lemma flow_count_received [simp]: "flow_count (received s) = flow_count s"
  by (simp add: received_def)

text \<open>
  Claim C6, as stated, fails in two ways. When the table already holds
  \<^verbatim>\<open>MAX_FLOW_RULES\<close> rules, the rule of a well-formed \<^verbatim>\<open>FLOW_RULE\<close> packet is discarded
  and the data packet that follows is reported as having no rule. When an earlier rule has
  the same source and destination, the data packet is forwarded to the next hop of that
  earlier rule, not to the one the packet encoded (7 below).
\<close>

theorem flow_rule_not_always_forwarding:
  "fst (process_wise_packet [7, 1, 0, 2, 0, 1, 5]
     (snd (process_wise_packet [14, 0x12, 0, 2, 0, 1, 5, 1, 0, 7, 0, 0, 0, 0]
        (snd (flow_table_add_all (replicate 10 (9, 9, 1, 9)) initial_state)))))
     = [RX 1 1 2 5, NoFlowRule] \<and>
   fst (process_wise_packet [7, 1, 0, 4, 0, 3, 5]
     (snd (process_wise_packet [14, 0x12, 0, 4, 0, 3, 5, 1, 0, 7, 0, 0, 0, 0] one_rule_state)))
     = [RX 1 3 4 5, ForwardingTo 5]"
  by code_simp

text \<open>
  Claim C6, amended. When the table has a free slot and holds no active rule with the source
  and destination of a \<^verbatim>\<open>FLOW_RULE\<close> packet of at least 14 bytes, then after that packet
  is processed, and after any run \<open>ds\<close> of further packets, a \<^verbatim>\<open>DATA\<close> packet with the
  same source and destination logs its header line and the forwarding line with the next
  hop read big-endian from bytes 8 and 9 of the \<^verbatim>\<open>FLOW_RULE\<close> packet.
\<close>

theorem flow_rule_then_data_forwarded:
  "table_ok s \<and> unat (flow_count s) < MAX_FLOW_RULES \<and>
   14 \<le> length fr \<and> fr ! 1 = WISE_TYPE_FLOW_RULE \<and>
   flow_table_lookup (packet_src fr) (packet_dst fr) s = None \<and>
   is_data_for (packet_src fr) (packet_dst fr) d \<longrightarrow>
   fst (process_wise_packet d (snd (process_all ds (snd (process_wise_packet fr s)))))
     = [packet_rx d, ForwardingTo (be16 (fr ! 8) (fr ! 9))]"
proof (intro impI, elim conjE)
  assume ok: "table_ok s" and room: "unat (flow_count s) < 10"
    and len: "14 \<le> length fr" and ty: "fr ! 1 = 0x12"
    and none: "flow_table_lookup (packet_src fr) (packet_dst fr) s = None"
    and data: "is_data_for (packet_src fr) (packet_dst fr) d"
  let ?n = "unat (flow_count s)"
  let ?nh = "be16 (fr ! 8) (fr ! 9)"
  let ?s1 = "snd (process_wise_packet fr s)"
  let ?s' = "snd (process_all ds ?s1)"
  have s1: "?s1 = snd (snd (flow_table_add (packet_src fr) (packet_dst fr) (fr ! 7) ?nh (received s)))"
    using len ty by (simp add: pwp_flow_rule)
  have ok_r: "table_ok (received s)" using ok by simp
  have room_r: "unat (flow_count (received s)) < 10" using room by simp
  have none_r: "flow_table_lookup (packet_src fr) (packet_dst fr) (received s) = None"
    using none by simp
  note e = add_effect [OF ok_r room_r, where src = "packet_src fr" and dst = "packet_dst fr"
      and act = "fr ! 7" and nh = ?nh]
  have ok1: "table_ok ?s1" unfolding s1 by (rule e(2))
  have first: "flow_table_lookup (packet_src fr) (packet_dst fr) ?s1 = Some ?n"
    unfolding s1 using add_lookup_first [OF ok_r room_r none_r, of "fr ! 7" ?nh] by simp
  have slot: "next_hop (flow_table ?s1 ! ?n) = ?nh"
    unfolding s1 using e(4) by (simp add: new_rule_def)
  have lt: "?n < unat (flow_count ?s1)" unfolding s1 using e(3) by simp
  have "same_policy (flow_table ?s1 ! ?n) (flow_table ?s' ! ?n)"
    using ok1 lt by (rule process_all_keeps)
  with slot have hop: "next_hop (flow_table ?s' ! ?n) = ?nh" by (simp add: same_policy_def)
  have hit: "flow_table_lookup (packet_src d) (packet_dst d) ?s' = Some ?n"
    using process_all_lookup_stable [OF ok1 first, of ds] data by (simp add: is_data_for_def)
  from data have "7 \<le> length d" "d ! 1 = 1" by (simp_all add: is_data_for_def)
  from pwp_data_hit [OF this hit] hop
  show "fst (process_wise_packet d ?s') = [packet_rx d, ForwardingTo ?nh]" by simp
qed

theorem flow_rule_then_data_forwarded_witness:
  "table_ok one_rule_state \<and> unat (flow_count one_rule_state) < MAX_FLOW_RULES \<and>
   14 \<le> length [14 :: u8, 0x12, 0, 2, 0, 1, 5, 1, 0, 7, 0, 0, 0, 0] \<and>
   [14 :: u8, 0x12, 0, 2, 0, 1, 5, 1, 0, 7, 0, 0, 0, 0] ! 1 = WISE_TYPE_FLOW_RULE \<and>
   flow_table_lookup (packet_src [14, 0x12, 0, 2, 0, 1, 5, 1, 0, 7, 0, 0, 0, 0])
     (packet_dst [14, 0x12, 0, 2, 0, 1, 5, 1, 0, 7, 0, 0, 0, 0]) one_rule_state = None \<and>
   is_data_for (packet_src [14, 0x12, 0, 2, 0, 1, 5, 1, 0, 7, 0, 0, 0, 0])
     (packet_dst [14, 0x12, 0, 2, 0, 1, 5, 1, 0, 7, 0, 0, 0, 0]) [7, 1, 0, 2, 0, 1, 9] \<and>
   fst (process_wise_packet [7, 1, 0, 2, 0, 1, 9]
     (snd (process_all [[7, 1, 0, 4, 0, 3, 5]]
        (snd (process_wise_packet [14, 0x12, 0, 2, 0, 1, 5, 1, 0, 7, 0, 0, 0, 0] one_rule_state)))))
     = [RX 1 1 2 9, ForwardingTo 7]"
proof -
  have ok: "table_ok one_rule_state" by (simp add: table_ok_def one_rule_state_def)
  have room: "unat (flow_count one_rule_state) < 10" by (simp add: one_rule_state_def)
  have none: "flow_table_lookup (packet_src [14, 0x12, 0, 2, 0, 1, 5, 1, 0, 7, 0, 0, 0, 0])
     (packet_dst [14, 0x12, 0, 2, 0, 1, 5, 1, 0, 7, 0, 0, 0, 0]) one_rule_state = None"
    by (simp add: lookup_None_iff one_rule_state_def rule_matches_def packet_src_def be16_def)
  have data: "is_data_for (packet_src [14, 0x12, 0, 2, 0, 1, 5, 1, 0, 7, 0, 0, 0, 0])
     (packet_dst [14, 0x12, 0, 2, 0, 1, 5, 1, 0, 7, 0, 0, 0, 0]) [7, 1, 0, 2, 0, 1, 9]"
    by (simp add: is_data_for_def packet_src_def packet_dst_def be16_def)
  from flow_rule_then_data_forwarded [of one_rule_state
      "[14, 0x12, 0, 2, 0, 1, 5, 1, 0, 7, 0, 0, 0, 0]" "[7, 1, 0, 2, 0, 1, 9]"
      "[[7, 1, 0, 4, 0, 3, 5]]"] ok room none data
  show ?thesis
    by (simp add: packet_rx_def packet_src_def packet_dst_def be16_def)
qed

section \<open>The report packet\<close>

lemma low_byte_mask: "x AND 0xFF = take_bit 8 x" for x :: "'a::len word"
  by (simp add: take_bit_eq_mask mask_eq_exp_minus_1)

lemma be16_bytes_hi:
  "ucast (drop_bit 8 (be16 hi lo) AND 0xFF) = hi"
  unfolding be16_def low_byte_mask
  by (rule bit_word_eqI) (auto simp: bit_simps dest: bit_imp_le_length)

lemma be16_bytes_lo:
  "ucast (be16 hi lo AND 0xFF) = lo"
  unfolding be16_def low_byte_mask
  by (rule bit_word_eqI) (auto simp: bit_simps dest: bit_imp_le_length)

lemma be32_bytes:
  "be32 (ucast (drop_bit 24 x AND 0xFF)) (ucast (drop_bit 16 x AND 0xFF))
        (ucast (drop_bit 8 x AND 0xFF)) (ucast (x AND 0xFF)) = x" for x :: u32
  unfolding be32_def low_byte_mask
proof (rule bit_word_eqI)
  fix n :: nat
  assume "n < LENGTH(32)"
  then have n: "n < 32" by simp
  consider "n < 8" | "8 \<le> n" "n < 16" | "16 \<le> n" "n < 24" | "24 \<le> n" "n < 32"
    using n by linarith
  then show "bit (push_bit 24 (ucast (ucast (take_bit 8 (drop_bit 24 x)) :: u8)) OR
      push_bit 16 (ucast (ucast (take_bit 8 (drop_bit 16 x)) :: u8)) OR
      push_bit 8 (ucast (ucast (take_bit 8 (drop_bit 8 x)) :: u8)) OR
      ucast (ucast (take_bit 8 x) :: u8) :: u32) n = bit x n"
    by cases (auto simp add: bit_simps)
qed


lemma report_buffer_nth:
  "k < 20 \<Longrightarrow>
   take 20 ((map stack [0..<32])[0 := b0, 1 := b1, 2 := b2, 3 := b3, 7 := b7, 8 := b8,
       9 := b9, 10 := b10]) ! k =
     (if k = 0 then b0 else if k = 1 then b1 else if k = 2 then b2 else if k = 3 then b3
      else if k = 7 then b7 else if k = 8 then b8 else if k = 9 then b9
      else if k = 10 then b10 else stack k)"
  by (simp add: nth_list_update)

lemma send_report_root:
  "send_report_to_controller True linkaddr stack s = (None, [], s)"
  by (simp add: send_report_to_controller_def)


lemma report_reserved_bytes:
  "k \<in> {4, 5, 6} \<union> {11..<20} \<Longrightarrow>
   the (fst (send_report_to_controller False linkaddr stack s)) ! k = stack k"
  by (auto simp add: send_report_to_controller_def Let_def report_buffer_nth)

text \<open>
  Claim C7. On the root (sink) node \<^verbatim>\<open>send_report_to_controller\<close> sends nothing, logs
  nothing and returns the state it was given, so \<^verbatim>\<open>packets_sent\<close> is not incremented.
  On any other node it sends a datagram of 20 bytes whose bytes 7 to 10 are the value
  \<^verbatim>\<open>packets_sent\<close> had before the call, as a 32-bit big-endian integer, and whose bytes 2
  and 3 are the node address (bytes 6 and 7 of the link address, big-endian); the state
  returned differs from the one given only in \<^verbatim>\<open>packets_sent\<close>, incremented by 1.
\<close>

theorem report_built_unless_root:
  "send_report_to_controller True linkaddr stack s = (None, [], s) \<and>
   (\<exists>p. fst (send_report_to_controller False linkaddr stack s) = Some p \<and>
      length p = 20 \<and> p ! 0 = 20 \<and> p ! 1 = WISE_TYPE_REPORT \<and>
      p ! 2 = linkaddr ! 6 \<and> p ! 3 = linkaddr ! 7 \<and>
      be16 (p ! 2) (p ! 3) = be16 (linkaddr ! 6) (linkaddr ! 7) \<and>
      be32 (p ! 7) (p ! 8) (p ! 9) (p ! 10) = packets_sent (stats s)) \<and>
   snd (snd (send_report_to_controller False linkaddr stack s)) =
     s\<lparr>stats := (stats s)\<lparr>packets_sent := packets_sent (stats s) + 1\<rparr>\<rparr>"
proof (intro conjI)
  show "send_report_to_controller True linkaddr stack s = (None, [], s)"
    by (rule send_report_root)
  show "snd (snd (send_report_to_controller False linkaddr stack s)) =
     s\<lparr>stats := (stats s)\<lparr>packets_sent := packets_sent (stats s) + 1\<rparr>\<rparr>"
    by (simp add: send_report_to_controller_def Let_def)
  let ?id = "be16 (linkaddr ! 6) (linkaddr ! 7)"
  let ?sent = "packets_sent (stats s)"
  let ?p = "take 20 ((map stack [0..<32])
      [0 := 20, 1 := 3,
       2 := ucast (drop_bit 8 ?id AND 0xFF), 3 := ucast (?id AND 0xFF),
       7 := ucast (drop_bit 24 ?sent AND 0xFF), 8 := ucast (drop_bit 16 ?sent AND 0xFF),
       9 := ucast (drop_bit 8 ?sent AND 0xFF), 10 := ucast (?sent AND 0xFF)])"
  have p: "fst (send_report_to_controller False linkaddr stack s) = Some ?p"
    by (simp add: send_report_to_controller_def Let_def)
  have len: "length ?p = 20" by simp
  have b: "?p ! 0 = 20" "?p ! 1 = 3"
    "?p ! 2 = ucast (drop_bit 8 ?id AND 0xFF)" "?p ! 3 = ucast (?id AND 0xFF)"
    "?p ! 7 = ucast (drop_bit 24 ?sent AND 0xFF)" "?p ! 8 = ucast (drop_bit 16 ?sent AND 0xFF)"
    "?p ! 9 = ucast (drop_bit 8 ?sent AND 0xFF)" "?p ! 10 = ucast (?sent AND 0xFF)"
    by (simp_all only: report_buffer_nth) simp_all
  have "?p ! 2 = linkaddr ! 6" "?p ! 3 = linkaddr ! 7"
    unfolding b by (rule be16_bytes_hi, rule be16_bytes_lo)
  moreover have "be32 (?p ! 7) (?p ! 8) (?p ! 9) (?p ! 10) = ?sent"
    unfolding b by (rule be32_bytes)
  ultimately show "\<exists>p. fst (send_report_to_controller False linkaddr stack s) = Some p \<and>
      length p = 20 \<and> p ! 0 = 20 \<and> p ! 1 = WISE_TYPE_REPORT \<and>
      p ! 2 = linkaddr ! 6 \<and> p ! 3 = linkaddr ! 7 \<and>
      be16 (p ! 2) (p ! 3) = be16 (linkaddr ! 6) (linkaddr ! 7) \<and>
      be32 (p ! 7) (p ! 8) (p ! 9) (p ! 10) = packets_sent (stats s)"
    using p len b(1,2) by (intro exI [of _ ?p]) simp
qed

text \<open>
  Claim C8 says that bytes 4 to 6 and 11 to 19 of every report are zero. The function never
  writes them: the local buffer is declared without an initialiser, so the datagram carries
  at these offsets whatever the stack held. With \<open>0xAA\<close> there, the report of node 1 is
\<close>

theorem report_reserved_bytes_left_as_found:
  "fst (send_report_to_controller False [0, 0, 0, 0, 0, 0, 0, 1] (\<lambda>k. 0xAA) initial_state) =
     Some [20, 3, 0, 1, 0xAA, 0xAA, 0xAA, 0, 0, 0, 0,
           0xAA, 0xAA, 0xAA, 0xAA, 0xAA, 0xAA, 0xAA, 0xAA, 0xAA]"
  by code_simp


end
